theory Spec2Isabelle
  imports Main "HOL-Library.Sublist"
begin

section \<open>JavaScript values, errors and the cache\<close>

text \<open>
  The cache operations of the library are JavaScript functions over dynamically typed
  arguments. An argument is a \<open>jsval\<close>; \<open>JCache\<close> is the reference to the
  \<open>Cache\<close> instance the operations act on (the only value for which
  \<open>cache instanceof Cache\<close> holds), and a function argument is the cache key matcher,
  whose result is already coerced to a boolean.
\<close>

datatype jsval =
    JUndefined
  | JNull
  | JBoolean bool
  | JNumber int
  | JString string
  | JFunction "string \<Rightarrow> bool"
  | JObject
  | JCache

datatype error = TypeError string | Error string

text \<open>JavaScript truthiness, as \<open>if (x)\<close> and \<open>!x\<close> read a value.\<close>

fun truthy :: "jsval \<Rightarrow> bool" where
  "truthy JUndefined = False"
| "truthy JNull = False"
| "truthy (JBoolean b) = b"
| "truthy (JNumber n) = (n \<noteq> 0)"
| "truthy (JString s) = (s \<noteq> [])"
| "truthy (JFunction f) = True"
| "truthy JObject = True"
| "truthy JCache = True"

fun is_function :: "jsval \<Rightarrow> bool" where
  "is_function (JFunction f) = True"
| "is_function v = False"

fun is_undefined :: "jsval \<Rightarrow> bool" where
  "is_undefined JUndefined = True"
| "is_undefined v = False"

text \<open>\<open>cache instanceof Cache\<close>.\<close>

fun instanceof_Cache :: "jsval \<Rightarrow> bool" where
  "instanceof_Cache JCache = True"
| "instanceof_Cache v = False"

fun is_string :: "jsval \<Rightarrow> bool" where
  "is_string (JString s) = True"
| "is_string v = False"

fun the_string :: "jsval \<Rightarrow> string" where
  "the_string (JString s) = s"
| "the_string v = []"

text \<open>
  An event of the \<open>Cache\<close> event target: its type (\<open><cacheKey>/<eventType>\<close>),
  whether it is cancelable, and its detail.
\<close>

record 'v event =
  ev_type :: string
  cancelable :: bool
  detail :: "'v option"

text \<open>
  The store is a plain object: its own enumerable properties are an association list in
  \<open>for ... in\<close> enumeration order (for keys that are not array indices, the order of
  insertion). A listener is a synchronous reaction: it sees the event and the store, may
  write the store, and may call \<open>preventDefault\<close> (the boolean of its result).
\<close>

type_synonym 'v store = "(string \<times> 'v) list"

type_synonym 'v listener = "'v event \<Rightarrow> 'v store \<Rightarrow> 'v store \<times> bool"

text \<open>
  The state the cache operations act on: the \<open>Cache\<close> instance (its store, the
  property names the store object inherits through its prototype chain, and the listener
  table of its event target), the trace of the events dispatched so far, each with the
  store as it was when the event was dispatched, and \<open>production\<close>: the negation of
  \<open>typeof process === 'object' && process.env.NODE_ENV !== 'production'\<close>, which selects
  the message of an argument error.
\<close>

record 'v world =
  store :: "'v store"
  inherited :: "string list"
  listeners :: "string \<Rightarrow> 'v listener list"
  dispatched :: "('v event \<times> 'v store) list"
  production :: bool

text \<open>
  The property names every object literal inherits from \<open>Object.prototype\<close>; none of
  them is enumerable.
\<close>

definition object_prototype :: "string list" where
  "object_prototype =
     [''constructor'', ''__defineGetter__'', ''__defineSetter__'', ''hasOwnProperty'',
      ''__lookupGetter__'', ''__lookupSetter__'', ''isPrototypeOf'',
      ''propertyIsEnumerable'', ''toString'', ''valueOf'', ''__proto__'',
      ''toLocaleString'']"

text \<open>\<open>new Cache(store)\<close> for an object literal \<open>store\<close>, in development mode.\<close>

definition new_Cache :: "'v store \<Rightarrow> 'v world" where
  "new_Cache s =
     \<lparr>store = s, inherited = object_prototype, listeners = (\<lambda>t. []),
      dispatched = [], production = False\<rparr>"

definition addEventListener :: "string \<Rightarrow> 'v listener \<Rightarrow> 'v world \<Rightarrow> 'v world" where
  "addEventListener t h w = w\<lparr>listeners := (listeners w)(t := listeners w t @ [h])\<rparr>"

definition own_keys :: "'v store \<Rightarrow> string list" where
  "own_keys s = map fst s"

text \<open>
  The operator \<open>key in object\<close> is true of an own property and of an inherited one.
\<close>

definition has_property :: "'v world \<Rightarrow> string \<Rightarrow> bool" where
  "has_property w k = (k \<in> set (own_keys (store w)) \<or> k \<in> set (inherited w))"

text \<open>\<open>delete object[key]\<close> removes an own property and nothing else.\<close>

definition delete_property :: "string \<Rightarrow> 'v store \<Rightarrow> 'v store" where
  "delete_property k s = filter (\<lambda>p. fst p \<noteq> k) s"

text \<open>
  Modelled from the spec: the \<open>Cache\<close> class and its event target are not among
  the sources. \<open>dispatchEvent\<close> calls the listeners of the event's type synchronously, in the order
  of their registration; its result is false exactly when the event is cancelable and a
  listener called \<open>preventDefault\<close>.
\<close>

fun run_listeners :: "'v listener list \<Rightarrow> 'v event \<Rightarrow> 'v store \<Rightarrow> 'v store \<times> bool" where
  "run_listeners [] e s = (s, False)"
| "run_listeners (h # hs) e s =
     (case h e s of (s1, p1) \<Rightarrow>
        (case run_listeners hs e s1 of (s2, p2) \<Rightarrow> (s2, p1 \<or> p2)))"

definition dispatchEvent :: "'v event \<Rightarrow> 'v world \<Rightarrow> bool \<times> 'v world" where
  "dispatchEvent e w =
     (case run_listeners (listeners w (ev_type e)) e (store w) of
        (s', prevented) \<Rightarrow>
          (\<not> (cancelable e \<and> prevented),
           w\<lparr>store := s', dispatched := dispatched w @ [(e, store w)]\<rparr>))"

definition CustomEvent :: "string \<Rightarrow> 'v event" where
  "CustomEvent t = \<lparr>ev_type = t, cancelable = False, detail = None\<rparr>"

definition CancelableEvent :: "string \<Rightarrow> 'v event" where
  "CancelableEvent t = \<lparr>ev_type = t, cancelable = True, detail = None\<rparr>"

definition DetailEvent :: "string \<Rightarrow> 'v \<Rightarrow> 'v event" where
  "DetailEvent t d = \<lparr>ev_type = t, cancelable = False, detail = Some d\<rparr>"

text \<open>
  Modelled from the spec: \<open>createArgErrorMessageProd\<close> is not among the sources;
  its test fixes the message for argument 1, and the callers use the indices 1 to 3.
\<close>

definition createArgErrorMessageProd :: "nat \<Rightarrow> string" where
  "createArgErrorMessageProd n =
     ''Argument '' @ (if n = 1 then ''1'' else if n = 2 then ''2'' else ''3'') @ '' type invalid.''"

definition arg_error :: "'v world \<Rightarrow> nat \<Rightarrow> string \<Rightarrow> error" where
  "arg_error w n dev_message =
     TypeError (if \<not> production w then dev_message else createArgErrorMessageProd n)"

section \<open>Entry operations\<close>

text \<open>\<open>cacheEntryDelete(cache, cacheKey)\<close> of \<^verbatim>\<open>cacheEntryDelete.mjs\<close>.\<close>

definition cacheEntryDelete :: "jsval \<Rightarrow> jsval \<Rightarrow> 'v world \<Rightarrow> error option \<times> 'v world" where
  "cacheEntryDelete cache cacheKey w =
     (if \<not> instanceof_Cache cache then
        (Some (arg_error w 1 ''Argument 1 `cache` must be a `Cache` instance.''), w)
      else if \<not> is_string cacheKey then
        (Some (arg_error w 2 ''Argument 2 `cacheKey` must be a string.''), w)
      else if has_property w (the_string cacheKey) then
        (None,
         snd (dispatchEvent (CustomEvent (the_string cacheKey @ ''/delete''))
                (w\<lparr>store := delete_property (the_string cacheKey) (store w)\<rparr>)))
      else (None, w))"

text \<open>
  \<open>cacheEntryStale(cache, cacheKey)\<close> of \<^verbatim>\<open>cacheEntryStale.mjs\<close>. The apostrophe
  of its error message is the three bytes of U+2019.
\<close>

definition not_in_store_message :: "string \<Rightarrow> string" where
  "not_in_store_message k =
     ''Cache key `'' @ k @ ''` isn'' @ [CHR 0xE2, CHR 0x80, CHR 0x99] @ ''t in the store.''"

definition cacheEntryStale :: "jsval \<Rightarrow> jsval \<Rightarrow> 'v world \<Rightarrow> error option \<times> 'v world" where
  "cacheEntryStale cache cacheKey w =
     (if \<not> instanceof_Cache cache then
        (Some (arg_error w 1 ''Argument 1 `cache` must be a `Cache` instance.''), w)
      else if \<not> is_string cacheKey then
        (Some (arg_error w 2 ''Argument 2 `cacheKey` must be a string.''), w)
      else if \<not> has_property w (the_string cacheKey) then
        (Some (Error (not_in_store_message (the_string cacheKey))), w)
      else
        (None, snd (dispatchEvent (CustomEvent (the_string cacheKey @ ''/stale'')) w)))"


text \<open>
  Modelled from the spec: \<open>cacheEntryPrune\<close> is not among the sources (its tests
  are). It validates its arguments like its siblings; if the key is absent it does
  nothing; if present it first dispatches a cancelable \<open><key>/prune\<close> event, and
  unless a listener prevented the default it proceeds to \<open>cacheEntryDelete\<close>.
\<close>

definition cacheEntryPrune :: "jsval \<Rightarrow> jsval \<Rightarrow> 'v world \<Rightarrow> error option \<times> 'v world" where
  "cacheEntryPrune cache cacheKey w =
     (if \<not> instanceof_Cache cache then
        (Some (arg_error w 1 ''Argument 1 `cache` must be a `Cache` instance.''), w)
      else if \<not> is_string cacheKey then
        (Some (arg_error w 2 ''Argument 2 `cacheKey` must be a string.''), w)
      else if the_string cacheKey \<in> set (own_keys (store w)) then
        (case dispatchEvent (CancelableEvent (the_string cacheKey @ ''/prune'')) w of
           (notCanceled, w') \<Rightarrow>
             if notCanceled then cacheEntryDelete cache cacheKey w' else (None, w'))
      else (None, w))"

text \<open>
  Modelled from the spec: \<open>cacheEntrySet\<close> and the read of an entry are not among the
  sources. \<open>cacheEntrySet\<close> validates its arguments, overwrites \<open>store[key]\<close>
  unconditionally (in place when the key exists, as a new last property otherwise) and
  dispatches a non-cancelable \<open><key>/set\<close> event with the new value as detail.
\<close>

fun set_property :: "string \<Rightarrow> 'v \<Rightarrow> 'v store \<Rightarrow> 'v store" where
  "set_property k v [] = [(k, v)]"
| "set_property k v (p # ps) = (if fst p = k then (k, v) # ps else p # set_property k v ps)"

definition cacheEntrySet :: "jsval \<Rightarrow> jsval \<Rightarrow> 'v \<Rightarrow> 'v world \<Rightarrow> error option \<times> 'v world" where
  "cacheEntrySet cache cacheKey cacheValue w =
     (if \<not> instanceof_Cache cache then
        (Some (arg_error w 1 ''Argument 1 `cache` must be a `Cache` instance.''), w)
      else if \<not> is_string cacheKey then
        (Some (arg_error w 2 ''Argument 2 `cacheKey` must be a string.''), w)
      else
        (None,
         snd (dispatchEvent (DetailEvent (the_string cacheKey @ ''/set'') cacheValue)
                (w\<lparr>store := set_property (the_string cacheKey) cacheValue (store w)\<rparr>))))"

definition get :: "'v world \<Rightarrow> string \<Rightarrow> 'v option" where
  "get w k = map_of (store w) k"

section \<open>Bulk operations\<close>

text \<open>
  \<open>for (const cacheKey in cache.store) body\<close>: the keys are enumerated from the store
  as it is when the loop starts; a key that is no longer a property of the store object
  when its turn comes (neither an own property nor an inherited one) is not visited, and
  a key added during the loop is not visited either. An exception thrown by the body ends
  the loop.
\<close>

fun for_in :: "(string \<Rightarrow> 'v world \<Rightarrow> error option \<times> 'v world) \<Rightarrow> string list \<Rightarrow> 'v world
    \<Rightarrow> error option \<times> 'v world" where
  "for_in body [] w = (None, w)"
| "for_in body (k # ks) w =
     (if has_property w k then
        (case body k w of
           (Some e, w') \<Rightarrow> (Some e, w')
         | (None, w') \<Rightarrow> for_in body ks w')
      else for_in body ks w)"

text \<open>
  \<open>!cacheKeyMatcher || cacheKeyMatcher(cacheKey)\<close>, for a matcher that passed the
  argument check (undefined or a function).
\<close>

definition matches :: "jsval \<Rightarrow> string \<Rightarrow> bool" where
  "matches cacheKeyMatcher k =
     (\<not> truthy cacheKeyMatcher \<or> (case cacheKeyMatcher of JFunction f \<Rightarrow> f k | _ \<Rightarrow> False))"

text \<open>\<open>cacheDelete(cache, cacheKeyMatcher)\<close> of \<^verbatim>\<open>cacheDelete.mjs\<close>.\<close>

definition cacheDelete :: "jsval \<Rightarrow> jsval \<Rightarrow> 'v world \<Rightarrow> error option \<times> 'v world" where
  "cacheDelete cache cacheKeyMatcher w =
     (if \<not> instanceof_Cache cache then
        (Some (arg_error w 1 ''Argument 1 `cache` must be a `Cache` instance.''), w)
      else if \<not> is_undefined cacheKeyMatcher \<and> \<not> is_function cacheKeyMatcher then
        (Some (arg_error w 2 ''Argument 2 `cacheKeyMatcher` must be a function.''), w)
      else
        for_in (\<lambda>cacheKey w'.
                  if matches cacheKeyMatcher cacheKey
                  then cacheEntryDelete cache (JString cacheKey) w' else (None, w'))
          (own_keys (store w)) w)"

text \<open>\<open>cachePrune(cache, cacheKeyMatcher)\<close>.\<close>

definition cachePrune :: "jsval \<Rightarrow> jsval \<Rightarrow> 'v world \<Rightarrow> error option \<times> 'v world" where
  "cachePrune cache cacheKeyMatcher w =
     (if \<not> instanceof_Cache cache then
        (Some (arg_error w 1 ''Argument 1 `cache` must be a `Cache` instance.''), w)
      else if \<not> is_undefined cacheKeyMatcher \<and> \<not> is_function cacheKeyMatcher then
        (Some (arg_error w 2 ''Argument 2 `cacheKeyMatcher` must be a function.''), w)
      else
        for_in (\<lambda>cacheKey w'.
                  if matches cacheKeyMatcher cacheKey
                  then cacheEntryPrune cache (JString cacheKey) w' else (None, w'))
          (own_keys (store w)) w)"

text \<open>
  \<open>cacheStale(cache, cacheKeyMatcher)\<close>; this version throws the development messages
  whatever \<open>NODE_ENV\<close> is.
\<close>

definition cacheStale :: "jsval \<Rightarrow> jsval \<Rightarrow> 'v world \<Rightarrow> error option \<times> 'v world" where
  "cacheStale cache cacheKeyMatcher w =
     (if \<not> instanceof_Cache cache then
        (Some (TypeError ''Argument 1 `cache` must be a `Cache` instance.''), w)
      else if \<not> is_undefined cacheKeyMatcher \<and> \<not> is_function cacheKeyMatcher then
        (Some (TypeError ''Argument 2 `cacheKeyMatcher` must be a function.''), w)
      else
        for_in (\<lambda>cacheKey w'.
                  if matches cacheKeyMatcher cacheKey
                  then cacheEntryStale cache (JString cacheKey) w' else (None, w'))
          (own_keys (store w)) w)"

section \<open>Listeners that only observe\<close>

text \<open>
  A listener is an observer when it never writes the store (it may still call
  \<open>preventDefault\<close>); \<open>observers w t\<close> says so of every listener of the event type
  \<open>t\<close>. \<open>prevented w e\<close>: some listener of \<open>e\<close> calls \<open>preventDefault\<close> on the
  store of \<open>w\<close>.
\<close>

definition observer :: "'v listener \<Rightarrow> bool" where
  "observer h = (\<forall>e s. fst (h e s) = s)"

definition observers :: "'v world \<Rightarrow> string \<Rightarrow> bool" where
  "observers w t = (\<forall>h \<in> set (listeners w t). observer h)"

definition prevented :: "'v world \<Rightarrow> 'v event \<Rightarrow> bool" where
  "prevented w e = (\<exists>h \<in> set (listeners w (ev_type e)). snd (h e (store w)))"

text \<open>The listener of the tests, which records the event and does nothing else.\<close>

definition recorder :: "'v listener" where
  "recorder e s = (s, False)"

text \<open>A listener that calls \<open>preventDefault\<close>, as the prune prevention hook does.\<close>

definition preventer :: "'v listener" where
  "preventer e s = (s, True)"

text \<open>
  A world is store-blind when no listener writes the store and no listener's decision to
  call \<open>preventDefault\<close> depends on the store. \<open>vetoes w k\<close>: a listener of
  \<open><k>/prune\<close> calls \<open>preventDefault\<close>.
\<close>

definition store_blind :: "'v world \<Rightarrow> bool" where
  "store_blind w = (\<forall>t. \<forall>h \<in> set (listeners w t). \<forall>e s s'. h e s = (s, snd (h e s')))"

definition vetoes :: "'v world \<Rightarrow> string \<Rightarrow> bool" where
  "vetoes w k = prevented w (CancelableEvent (k @ ''/prune''))"

text \<open>
  The body of the loop of a bulk operation, \<open>if (matches) entry_op(cache, cacheKey)\<close>,
  and the types of the events of a trace that satisfy \<open>Q\<close>, in order.
\<close>

definition guarded :: "(string \<Rightarrow> bool) \<Rightarrow> (string \<Rightarrow> 'v world \<Rightarrow> error option \<times> 'v world)
    \<Rightarrow> string \<Rightarrow> 'v world \<Rightarrow> error option \<times> 'v world" where
  "guarded P entry_op k w = (if P k then entry_op k w else (None, w))"

definition trace_types :: "('v event \<Rightarrow> bool) \<Rightarrow> ('v event \<times> 'v store) list \<Rightarrow> string list" where
  "trace_types Q evs = map ev_type (filter Q (map fst evs))"

text \<open>
  \<open>fired w w'\<close>: the events dispatched between the world \<open>w\<close> and the later world
  \<open>w'\<close>. \<open>world_at_turn entry_op m xs w\<close>: the world after the loop of a bulk
  operation went through the keys \<open>xs\<close>, that is, the world in which the turn of the
  key after \<open>xs\<close> comes.
\<close>

definition fired :: "'v world \<Rightarrow> 'v world \<Rightarrow> ('v event \<times> 'v store) list" where
  "fired w w' = drop (length (dispatched w)) (dispatched w')"

definition world_at_turn :: "(string \<Rightarrow> 'v world \<Rightarrow> error option \<times> 'v world) \<Rightarrow> jsval
    \<Rightarrow> string list \<Rightarrow> 'v world \<Rightarrow> 'v world" where
  "world_at_turn entry_op m xs w = snd (for_in (guarded (matches m) entry_op) xs w)"

section \<open>The GraphQL client and its reset\<close>

text \<open>
  The \<open>GraphQL\<close> class of \<^verbatim>\<open>GraphQL.mjs\<close>: its cache is a plain object (the own
  properties in enumeration order), and its events go through a \<open>mitt\<close> emitter. A
  handler receives the event type and the event details (for \<open>reset\<close> the
  \<open>exceptCacheKey\<close> it was called with) and may write the cache. The trace records each
  emitted event with its details and the cache as it was at that moment.
\<close>

type_synonym 'v handler = "string \<Rightarrow> jsval \<Rightarrow> 'v store \<Rightarrow> 'v store"

record 'v graphql =
  graphql_cache :: "'v store"
  handlers :: "string \<Rightarrow> 'v handler list"
  emitted :: "(string \<times> jsval \<times> 'v store) list"

text \<open>
  \<open>emit(type, details)\<close> of \<open>mitt\<close>, a library outside the repository: the handlers
  of the type are called in the order of their registration, then the handlers of
  \<open>*\<close>.
\<close>

fun run_handlers :: "'v handler list \<Rightarrow> string \<Rightarrow> jsval \<Rightarrow> 'v store \<Rightarrow> 'v store" where
  "run_handlers [] t d s = s"
| "run_handlers (h # hs) t d s = run_handlers hs t d (h t d s)"

definition emit :: "string \<Rightarrow> jsval \<Rightarrow> 'v graphql \<Rightarrow> 'v graphql" where
  "emit t d g =
     g\<lparr>graphql_cache := run_handlers (handlers g t @ handlers g ''*'') t d (graphql_cache g),
       emitted := emitted g @ [(t, d, graphql_cache g)]\<rparr>"

text \<open>\<open>hash === exceptCacheKey\<close> for a string \<open>hash\<close>.\<close>

fun strict_equals :: "string \<Rightarrow> jsval \<Rightarrow> bool" where
  "strict_equals hash (JString s) = (hash = s)"
| "strict_equals hash v = False"

text \<open>
  \<open>reset(exceptCacheKey)\<close>: the keys of the cache, without \<open>exceptCacheKey\<close> when
  that argument is truthy, are deleted one by one; then \<open>reset\<close> is emitted.
\<close>

definition reset :: "jsval \<Rightarrow> 'v graphql \<Rightarrow> 'v graphql" where
  "reset exceptCacheKey g =
     (let cacheKeys = own_keys (graphql_cache g);
          cacheKeys = (if truthy exceptCacheKey
                       then filter (\<lambda>hash. \<not> strict_equals hash exceptCacheKey) cacheKeys
                       else cacheKeys)
      in emit ''reset'' exceptCacheKey
           (g\<lparr>graphql_cache := fold delete_property cacheKeys (graphql_cache g)\<rparr>))"

text \<open>\<open>quiet g t\<close>: the handlers that an event of type \<open>t\<close> reaches leave the cache alone.\<close>

definition quiet :: "'v graphql \<Rightarrow> string \<Rightarrow> bool" where
  "quiet g t = (\<forall>h \<in> set (handlers g t @ handlers g ''*''). \<forall>d s. h t d s = s)"

text \<open>
  A client whose cache was imported with an entry under the empty key, with one handler of
  \<open>reset\<close> that reads and does not write.
\<close>

definition reader :: "'v handler" where
  "reader t d s = s"

definition client :: "int graphql" where
  "client =
     \<lparr>graphql_cache = [([], 1), (''a'', 2), (''b'', 3)],
      handlers = (\<lambda>t. if t = ''reset'' then [reader] else []),
      emitted = []\<rparr>"

section \<open>Loading and LoadingCacheValue\<close>

text \<open>
  Modelled from the spec: the classes \<open>Loading\<close> and \<open>LoadingCacheValue\<close> are not
  among the sources (only callers and tests are). The registry maps a cache key to the
  loading cache values in flight for it, in the order of their registration; a key with
  nothing in flight is absent. A loading cache value is known by its index in the list of
  all that were ever constructed.
\<close>

datatype lcv_state = PENDING | COMMITTED | ABORTED

record lcv =
  lcv_key :: string
  aborted :: bool
  state :: lcv_state

record 'v system =
  the_cache :: "'v world"
  loading_store :: "string \<rightharpoonup> nat list"
  loading_events :: "string list"
  lcvs :: "lcv list"
  ended :: "nat list"

text \<open>\<open>get(key)\<close>: the current set of in-flight values, empty when the key is absent.\<close>

definition loading_get :: "(string \<rightharpoonup> nat list) \<Rightarrow> string \<Rightarrow> nat list" where
  "loading_get L k = (case L k of None \<Rightarrow> [] | Some ids \<Rightarrow> ids)"

text \<open>
  Modelled from the spec: \<open>register\<close> adds to the set of the key, creating it if absent;
  \<open>unregister\<close> removes from the set and, when the set becomes empty, removes the key.
  The start and end events are dispatched on the zero-to-one and one-to-zero edges only.
  \<open>ended\<close> lists the loading cache values unregistered so far.
\<close>

definition register :: "string \<Rightarrow> nat \<Rightarrow> 'v system \<Rightarrow> 'v system" where
  "register k i \<sigma> =
     \<sigma>\<lparr>loading_store := (loading_store \<sigma>)(k \<mapsto> loading_get (loading_store \<sigma>) k @ [i]),
       loading_events := loading_events \<sigma> @
         (if loading_get (loading_store \<sigma>) k = [] then [k @ ''/start''] else [])\<rparr>"

definition unregister :: "string \<Rightarrow> nat \<Rightarrow> 'v system \<Rightarrow> 'v system" where
  "unregister k i \<sigma> =
     (let ids = removeAll i (loading_get (loading_store \<sigma>) k)
      in \<sigma>\<lparr>loading_store :=
             (if ids = [] then (loading_store \<sigma>)(k := None) else (loading_store \<sigma>)(k \<mapsto> ids)),
           loading_events := loading_events \<sigma> @
             (if ids = [] \<and> loading_get (loading_store \<sigma>) k \<noteq> [] then [k @ ''/end''] else []),
           ended := ended \<sigma> @ [i]\<rparr>)"

text \<open>
  Modelled from the spec: the construction of a loading cache value for a key, with an
  abort controller whose signal may already be aborted, registers it at once (state
  \<open>PENDING\<close>). \<open>abort\<close> only marks the signal.
\<close>

definition LoadingCacheValue :: "string \<Rightarrow> bool \<Rightarrow> 'v system \<Rightarrow> 'v system" where
  "LoadingCacheValue k already_aborted \<sigma> =
     register k (length (lcvs \<sigma>))
       (\<sigma>\<lparr>lcvs := lcvs \<sigma> @ [\<lparr>lcv_key = k, aborted = already_aborted, state = PENDING\<rparr>]\<rparr>)"

definition abort :: "nat \<Rightarrow> 'v system \<Rightarrow> 'v system" where
  "abort i \<sigma> =
     (if i < length (lcvs \<sigma>)
      then \<sigma>\<lparr>lcvs := (lcvs \<sigma>)[i := (lcvs \<sigma> ! i)\<lparr>aborted := True\<rparr>]\<rparr>
      else \<sigma>)"

text \<open>
  Modelled from the spec: when the result promise settles with a value (a promise settles
  once: a settled value does nothing more), a value that is not aborted is written to the
  cache with \<open>cacheEntrySet\<close> and then unregistered (\<open>COMMITTED\<close>); an aborted one
  skips the write and is unregistered all the same (\<open>ABORTED\<close>).
\<close>

definition settle :: "nat \<Rightarrow> 'v \<Rightarrow> 'v system \<Rightarrow> 'v system" where
  "settle i v \<sigma> =
     (if i < length (lcvs \<sigma>) \<and> state (lcvs \<sigma> ! i) = PENDING then
        (if aborted (lcvs \<sigma> ! i) then
           unregister (lcv_key (lcvs \<sigma> ! i)) i
             (\<sigma>\<lparr>lcvs := (lcvs \<sigma>)[i := (lcvs \<sigma> ! i)\<lparr>state := ABORTED\<rparr>]\<rparr>)
         else
           unregister (lcv_key (lcvs \<sigma> ! i)) i
             (\<sigma>\<lparr>the_cache :=
                  snd (cacheEntrySet JCache (JString (lcv_key (lcvs \<sigma> ! i))) v (the_cache \<sigma>)),
                lcvs := (lcvs \<sigma>)[i := (lcvs \<sigma> ! i)\<lparr>state := COMMITTED\<rparr>]\<rparr>))
      else \<sigma>)"

text \<open>What can happen to the system, and a run of such steps.\<close>

datatype 'v step = Construct string bool | Abort nat | Settle nat 'v

fun do_step :: "'v step \<Rightarrow> 'v system \<Rightarrow> 'v system" where
  "do_step (Construct k a) \<sigma> = LoadingCacheValue k a \<sigma>"
| "do_step (Abort i) \<sigma> = abort i \<sigma>"
| "do_step (Settle i v) \<sigma> = settle i v \<sigma>"

fun exec :: "'v step list \<Rightarrow> 'v system \<Rightarrow> 'v system" where
  "exec [] \<sigma> = \<sigma>"
| "exec (s # ss) \<sigma> = exec ss (do_step s \<sigma>)"

text \<open>
  \<open>aborted_pending i k c \<sigma>\<close>: the loading cache value \<open>i\<close>, for the key \<open>k\<close>, is
  aborted and either still pending, unregistered \<open>c\<close> times so far, or in its final
  state \<open>ABORTED\<close>, unregistered once more and out of the registry.
\<close>

definition aborted_pending :: "nat \<Rightarrow> string \<Rightarrow> nat \<Rightarrow> 'v system \<Rightarrow> bool" where
  "aborted_pending i k c \<sigma> =
     (i < length (lcvs \<sigma>) \<and> aborted (lcvs \<sigma> ! i) \<and> lcv_key (lcvs \<sigma> ! i) = k
      \<and> (state (lcvs \<sigma> ! i) = PENDING \<and> count_list (ended \<sigma>) i = c
         \<or> state (lcvs \<sigma> ! i) = ABORTED \<and> count_list (ended \<sigma>) i = Suc c
            \<and> i \<notin> set (loading_get (loading_store \<sigma>) k)))"

text \<open>
  A system with the empty cache and nothing loading, as \<open>new Cache()\<close> and
  \<open>new Loading()\<close> give it.
\<close>

definition fresh_system :: "int system" where
  "fresh_system =
     \<lparr>the_cache = new_Cache [], loading_store = Map.empty, loading_events = [], lcvs = [],
      ended = []\<rparr>"

text \<open>
  Two overlapping loading cache values for the key \<open>x\<close>, the first of them aborted.
\<close>

definition overlapping_system :: "int system" where
  "overlapping_system =
     exec [Construct ''x'' False, Construct ''x'' False, Abort 0] fresh_system"

section \<open>Caches of the tests\<close>

text \<open>
  \<open>new Cache({ a: 1 })\<close> with a recording listener for \<open>a/set\<close>.
\<close>

definition set_world :: "int world" where
  "set_world = addEventListener ''a/set'' recorder (new_Cache [(''a'', 1)])"

text \<open>
  The caches of the \<open>cacheEntryPrune\<close> tests: \<open>new Cache({ a: 1, b: 2 })\<close> with
  listeners for \<open>b/prune\<close> and \<open>b/delete\<close>; in the second the prune listener calls
  \<open>preventDefault\<close>.
\<close>

definition prune_world :: "int world" where
  "prune_world =
     addEventListener ''b/delete'' recorder
       (addEventListener ''b/prune'' recorder (new_Cache [(''a'', 1), (''b'', 2)]))"

definition prune_prevented_world :: "int world" where
  "prune_prevented_world =
     addEventListener ''b/delete'' recorder
       (addEventListener ''b/prune'' preventer (new_Cache [(''a'', 1), (''b'', 2)]))"

text \<open>
  \<open>new Cache()\<close>: the default store is the empty object literal.
\<close>

definition empty_world :: "int world" where
  "empty_world = new_Cache []"

text \<open>
  The caches of the \<open>cacheDelete\<close> tests: \<open>new Cache({ a: 1, b: 2 })\<close> and
  \<open>new Cache({ a: 1, b: 2, c: 3 })\<close>, with a recording listener for the delete event
  of every key, and the matcher \<open>(cacheKey) => cacheKey !== "b"\<close>.
\<close>

definition delete_world_ab :: "int world" where
  "delete_world_ab =
     addEventListener ''b/delete'' recorder
       (addEventListener ''a/delete'' recorder (new_Cache [(''a'', 1), (''b'', 2)]))"

definition delete_world_abc :: "int world" where
  "delete_world_abc =
     addEventListener ''c/delete'' recorder
       (addEventListener ''b/delete'' recorder
          (addEventListener ''a/delete'' recorder
             (new_Cache [(''a'', 1), (''b'', 2), (''c'', 3)])))"

definition not_b :: jsval where
  "not_b = JFunction (\<lambda>cacheKey. cacheKey \<noteq> ''b'')"

text \<open>
  A listener that removes the entry \<open>k\<close> from the store, and
  \<open>new Cache({ a: 1, b: 2 })\<close> with such a listener for \<open>a/stale\<close> that removes
  \<open>b\<close>.
\<close>

definition remover :: "string \<Rightarrow> 'v listener" where
  "remover k e s = (delete_property k s, False)"

definition stale_world :: "int world" where
  "stale_world = addEventListener ''a/stale'' (remover ''b'') (new_Cache [(''a'', 1), (''b'', 2)])"

text \<open>
  A store-blind cache with a listener that prevents the pruning of \<open>a\<close>, and two
  stores with the same entries in different orders.
\<close>

definition blind_world :: "int world" where
  "blind_world =
     addEventListener ''c/delete'' recorder
       (addEventListener ''a/prune'' preventer (new_Cache []))"

definition store_abc :: "int store" where
  "store_abc = [(''a'', 1), (''b'', 2), (''c'', 3)]"

definition store_cba :: "int store" where
  "store_cba = [(''c'', 3), (''b'', 2), (''a'', 1)]"

text \<open>
  \<open>new Cache({ a: 1, toString: 2, c: 3 })\<close> with a listener for \<open>a/stale\<close> that
  removes the own property \<open>toString\<close>: the name stays a property of the store object,
  inherited from \<open>Object.prototype\<close>.
\<close>

definition shadow_world :: "int world" where
  "shadow_world =
     addEventListener ''a/stale'' (remover ''toString'')
       (new_Cache [(''a'', 1), (''toString'', 2), (''c'', 3)])"

section \<open>Facts about dispatch and the store\<close>

lemma run_listeners_observer:
  "\<forall>h \<in> set hs. observer h \<Longrightarrow> run_listeners hs e s = (s, \<exists>h \<in> set hs. snd (h e s))"
proof (induction hs)
  case Nil
  then show ?case by simp
next
  case (Cons h hs)
  then have a: "fst (h e s) = s" by (simp add: observer_def)
  from Cons have b: "run_listeners hs e s = (s, \<exists>h \<in> set hs. snd (h e s))" by simp
  show ?case by (simp add: case_prod_beta a b)
qed

lemma dispatchEvent_trace:
  "dispatched (snd (dispatchEvent e w)) = dispatched w @ [(e, store w)]"
  by (simp add: dispatchEvent_def case_prod_beta)

lemma dispatchEvent_frame:
  "listeners (snd (dispatchEvent e w)) = listeners w"
  "inherited (snd (dispatchEvent e w)) = inherited w"
  "production (snd (dispatchEvent e w)) = production w"
  by (simp_all add: dispatchEvent_def case_prod_beta)

lemma dispatchEvent_observers:
  assumes "observers w (ev_type e)"
  shows "dispatchEvent e w =
           (\<not> (cancelable e \<and> prevented w e), w\<lparr>dispatched := dispatched w @ [(e, store w)]\<rparr>)"
  using run_listeners_observer [of "listeners w (ev_type e)" e "store w"] assms
  by (simp add: dispatchEvent_def observers_def prevented_def)

lemma dispatchEvent_store:
  "observers w (ev_type e) \<Longrightarrow> store (snd (dispatchEvent e w)) = store w"
  by (simp add: dispatchEvent_observers)

lemma set_property_map_of: "map_of (set_property k v s) k = Some v"
  by (induction s) auto

lemma set_property_other: "k' \<noteq> k \<Longrightarrow> map_of (set_property k v s) k' = map_of s k'"
  by (induction s) auto

lemma delete_property_keys: "set (own_keys (delete_property k s)) = set (own_keys s) - {k}"
  by (auto simp: own_keys_def delete_property_def)

lemma delete_property_map_of:
  "map_of (delete_property k s) k' = (if k' = k then None else map_of s k')"
  by (induction s) (auto simp: delete_property_def)

lemma delete_property_absent: "k \<notin> set (own_keys s) \<Longrightarrow> delete_property k s = s"
  by (induction s) (auto simp: delete_property_def own_keys_def)

lemma observer_recorder: "observer recorder"
  by (simp add: observer_def recorder_def)

lemma observer_preventer: "observer preventer"
  by (simp add: observer_def preventer_def)

lemma cacheEntryDelete_absent:
  "\<not> has_property w k \<Longrightarrow> cacheEntryDelete JCache (JString k) w = (None, w)"
  by (simp add: cacheEntryDelete_def)

lemma cacheEntryDelete_present:
  assumes "has_property w k"
  shows "fst (cacheEntryDelete JCache (JString k) w) = None"
    and "dispatched (snd (cacheEntryDelete JCache (JString k) w)) =
           dispatched w @ [(CustomEvent (k @ ''/delete''), delete_property k (store w))]"
  using assms by (simp_all add: cacheEntryDelete_def dispatchEvent_trace)

lemma cacheEntryDelete_observers:
  assumes "has_property w k" and "observers w (k @ ''/delete'')"
  shows "cacheEntryDelete JCache (JString k) w =
           (None, w\<lparr>store := delete_property k (store w),
                     dispatched := dispatched w @
                       [(CustomEvent (k @ ''/delete''), delete_property k (store w))]\<rparr>)"
proof -
  let ?d = "CustomEvent (k @ ''/delete'') :: 'a event"
  let ?w1 = "w\<lparr>store := delete_property k (store w)\<rparr>"
  have "observers ?w1 (ev_type ?d)"
    using assms(2) by (simp add: observers_def CustomEvent_def)
  then have "snd (dispatchEvent ?d ?w1) = ?w1\<lparr>dispatched := dispatched ?w1 @ [(?d, store ?w1)]\<rparr>"
    using dispatchEvent_observers [of ?w1 ?d] by simp
  then show ?thesis using assms(1) by (simp add: cacheEntryDelete_def)
qed

lemma cacheEntryStale_absent:
  "\<not> has_property w k \<Longrightarrow>
     cacheEntryStale JCache (JString k) w = (Some (Error (not_in_store_message k)), w)"
  by (simp add: cacheEntryStale_def)

lemma cacheEntryStale_present:
  assumes "has_property w k"
  shows "fst (cacheEntryStale JCache (JString k) w) = None"
    and "dispatched (snd (cacheEntryStale JCache (JString k) w)) =
           dispatched w @ [(CustomEvent (k @ ''/stale''), store w)]"
  using assms by (simp_all add: cacheEntryStale_def dispatchEvent_trace)

lemma cacheEntryStale_observers:
  assumes "has_property w k" and "observers w (k @ ''/stale'')"
  shows "cacheEntryStale JCache (JString k) w =
           (None, w\<lparr>dispatched := dispatched w @ [(CustomEvent (k @ ''/stale''), store w)]\<rparr>)"
proof -
  let ?d = "CustomEvent (k @ ''/stale'') :: 'a event"
  have "observers w (ev_type ?d)"
    using assms(2) by (simp add: CustomEvent_def)
  then have "snd (dispatchEvent ?d w) = w\<lparr>dispatched := dispatched w @ [(?d, store w)]\<rparr>"
    using dispatchEvent_observers [of w ?d] by simp
  then show ?thesis using assms(1) by (simp add: cacheEntryStale_def)
qed


section \<open>The loop of the bulk operations\<close>

lemma trace_types_append: "trace_types Q (xs @ ys) = trace_types Q xs @ trace_types Q ys"
  by (simp add: trace_types_def)

lemma fired_append: "dispatched w' = dispatched w @ evs \<Longrightarrow> fired w w' = evs"
  by (simp add: fired_def)

lemma subseq_distinct: "subseq xs ys \<Longrightarrow> distinct ys \<Longrightarrow> distinct xs"
  by (auto simp: subseq_conv_nths)

lemma subseq_filter_set:
  assumes "subseq xs (filter P ys)"
  shows "set xs \<subseteq> set ys"
proof
  fix x
  assume "x \<in> set xs"
  from list_emb_set [OF assms this] show "x \<in> set ys" by auto
qed

lemma for_in_append:
  "for_in body (xs @ ys) w =
     (case for_in body xs w of (Some e, w') \<Rightarrow> (Some e, w') | (None, w') \<Rightarrow> for_in body ys w')"
proof (induction xs arbitrary: w)
  case Nil
  show ?case by simp
next
  case (Cons k xs)
  show ?case
  proof (cases "has_property w k")
    case True
    show ?thesis
    proof (cases "body k w")
      case (Pair r w1)
      then show ?thesis using True Cons.IH [of w1] by (cases r) simp_all
    qed
  next
    case False
    then show ?thesis using Cons.IH [of w] by simp
  qed
qed

lemma for_in_visits:
  assumes step: "\<And>k w. has_property w k \<Longrightarrow> P k \<Longrightarrow>
       fst (entry_op k w) = None
       \<and> (\<exists>evs. dispatched (snd (entry_op k w)) = dispatched w @ evs
              \<and> trace_types Q evs = (if R w k then [f k] else []))"
  shows "fst (for_in (guarded P entry_op) ks w) = None
       \<and> (\<exists>ks' evs. subseq ks' (filter P ks)
            \<and> dispatched (snd (for_in (guarded P entry_op) ks w)) = dispatched w @ evs
            \<and> trace_types Q evs = map f ks')"
proof (induction ks arbitrary: w)
  case Nil
  show ?case by (simp add: trace_types_def)
next
  case (Cons k ks)
  show ?case
  proof (cases "has_property w k \<and> P k")
    case True
    from step [of w k] True obtain evs1 where
      s: "fst (entry_op k w) = None" "dispatched (snd (entry_op k w)) = dispatched w @ evs1"
         "trace_types Q evs1 = (if R w k then [f k] else [])" by blast
    from Cons.IH [of "snd (entry_op k w)"] obtain ks' evs where
      i: "fst (for_in (guarded P entry_op) ks (snd (entry_op k w))) = None"
         "subseq ks' (filter P ks)"
         "dispatched (snd (for_in (guarded P entry_op) ks (snd (entry_op k w)))) =
            dispatched (snd (entry_op k w)) @ evs"
         "trace_types Q evs = map f ks'" by blast
    have r: "for_in (guarded P entry_op) (k # ks) w =
               for_in (guarded P entry_op) ks (snd (entry_op k w))"
      using True s(1) by (cases "entry_op k w") (simp add: guarded_def)
    have d: "dispatched (snd (for_in (guarded P entry_op) (k # ks) w)) =
               dispatched w @ (evs1 @ evs)"
      using r i(3) s(2) by simp
    show ?thesis
    proof (cases "R w k")
      case True
      have "subseq (k # ks') (filter P (k # ks))" using \<open>has_property w k \<and> P k\<close> i(2) by simp
      moreover have "trace_types Q (evs1 @ evs) = map f (k # ks')"
        using s(3) i(4) True by (simp add: trace_types_append)
      moreover note d
      ultimately have "\<exists>ks' evs. subseq ks' (filter P (k # ks))
            \<and> dispatched (snd (for_in (guarded P entry_op) (k # ks) w)) = dispatched w @ evs
            \<and> trace_types Q evs = map f ks'" by blast
      moreover have "fst (for_in (guarded P entry_op) (k # ks) w) = None"
        using r i(1) by simp
      ultimately show ?thesis by (rule conjI [rotated])
    next
      case False
      have "subseq ks' (filter P (k # ks))"
        using i(2) by (simp add: subseq_drop_many [of _ _ "[k]", simplified])
      moreover have "trace_types Q (evs1 @ evs) = map f ks'"
        using s(3) i(4) False by (simp add: trace_types_append)
      moreover note d
      ultimately have "\<exists>ks' evs. subseq ks' (filter P (k # ks))
            \<and> dispatched (snd (for_in (guarded P entry_op) (k # ks) w)) = dispatched w @ evs
            \<and> trace_types Q evs = map f ks'" by blast
      moreover have "fst (for_in (guarded P entry_op) (k # ks) w) = None"
        using r i(1) by simp
      ultimately show ?thesis by (rule conjI [rotated])
    qed
  next
    case False
    have r: "for_in (guarded P entry_op) (k # ks) w = for_in (guarded P entry_op) ks w"
      using False by (auto simp: guarded_def)
    from Cons.IH [of w] obtain ks' evs where
      i: "fst (for_in (guarded P entry_op) ks w) = None"
         "subseq ks' (filter P ks)"
         "dispatched (snd (for_in (guarded P entry_op) ks w)) = dispatched w @ evs"
         "trace_types Q evs = map f ks'" by blast
    have "subseq ks' (filter P (k # ks))"
      using i(2) by (simp add: subseq_drop_many [of _ _ "[k]", simplified])
    then have "\<exists>ks' evs. subseq ks' (filter P (k # ks))
            \<and> dispatched (snd (for_in (guarded P entry_op) (k # ks) w)) = dispatched w @ evs
            \<and> trace_types Q evs = map f ks'"
      using r i(3) i(4) by auto
    moreover have "fst (for_in (guarded P entry_op) (k # ks) w) = None"
      using r i(1) by simp
    ultimately show ?thesis by (rule conjI [rotated])
  qed
qed

lemma for_in_turn:
  assumes step: "\<And>k w. has_property w k \<Longrightarrow> P k \<Longrightarrow>
       fst (entry_op k w) = None
       \<and> (\<exists>evs. dispatched (snd (entry_op k w)) = dispatched w @ evs
              \<and> trace_types Q evs = (if R w k then [f k] else []))"
    and "inj f" and "distinct (xs @ k # ys)"
  shows "(f k \<in> set (trace_types Q (fired w (snd (for_in (guarded P entry_op) (xs @ k # ys) w)))))
       = (P k \<and> has_property (snd (for_in (guarded P entry_op) xs w)) k
              \<and> R (snd (for_in (guarded P entry_op) xs w)) k)"
proof -
  let ?B = "guarded P entry_op"
  let ?w' = "snd (for_in ?B xs w)"
  from for_in_visits [of P entry_op Q R f xs w, OF step] obtain ksx evsx where
    x: "fst (for_in ?B xs w) = None" "subseq ksx (filter P xs)"
       "dispatched ?w' = dispatched w @ evsx" "trace_types Q evsx = map f ksx" by blast
  have a: "for_in ?B (xs @ k # ys) w = for_in ?B (k # ys) ?w'"
    using x(1) by (cases "for_in ?B xs w") (simp add: for_in_append)
  have kx: "k \<notin> set ksx" using subseq_filter_set [OF x(2)] assms(3) by auto
  have inj: "f k \<notin> set (map f ks')" if "k \<notin> set ks'" for ks'
    using that assms(2) by (auto dest: injD)
  show ?thesis
  proof (cases "has_property ?w' k \<and> P k")
    case True
    from step [of ?w' k] True obtain evsk where
      s: "fst (entry_op k ?w') = None" "dispatched (snd (entry_op k ?w')) = dispatched ?w' @ evsk"
         "trace_types Q evsk = (if R ?w' k then [f k] else [])" by blast
    from for_in_visits [of P entry_op Q R f ys "snd (entry_op k ?w')", OF step] obtain ksy evsy where
      y: "subseq ksy (filter P ys)"
         "dispatched (snd (for_in ?B ys (snd (entry_op k ?w')))) =
            dispatched (snd (entry_op k ?w')) @ evsy"
         "trace_types Q evsy = map f ksy" by blast
    have ky: "k \<notin> set ksy" using subseq_filter_set [OF y(1)] assms(3) by auto
    have r: "for_in ?B (k # ys) ?w' = for_in ?B ys (snd (entry_op k ?w'))"
      using True s(1) by (cases "entry_op k ?w'") (simp add: guarded_def)
    have "dispatched (snd (for_in ?B (xs @ k # ys) w)) = dispatched w @ (evsx @ evsk @ evsy)"
      using a r y(2) s(2) x(3) by simp
    then have "fired w (snd (for_in ?B (xs @ k # ys) w)) = evsx @ evsk @ evsy"
      by (rule fired_append)
    then have "trace_types Q (fired w (snd (for_in ?B (xs @ k # ys) w))) =
                 map f ksx @ (if R ?w' k then [f k] else []) @ map f ksy"
      using x(4) s(3) y(3) by (simp only: trace_types_append)
    then have "(f k \<in> set (trace_types Q (fired w (snd (for_in ?B (xs @ k # ys) w))))) = R ?w' k"
      using inj [OF kx] inj [OF ky] by simp
    then show ?thesis using True by simp
  next
    case False
    from for_in_visits [of P entry_op Q R f ys ?w', OF step] obtain ksy evsy where
      y: "subseq ksy (filter P ys)"
         "dispatched (snd (for_in ?B ys ?w')) = dispatched ?w' @ evsy"
         "trace_types Q evsy = map f ksy" by blast
    have ky: "k \<notin> set ksy" using subseq_filter_set [OF y(1)] assms(3) by auto
    have r: "for_in ?B (k # ys) ?w' = for_in ?B ys ?w'"
      using False by (auto simp: guarded_def)
    have "dispatched (snd (for_in ?B (xs @ k # ys) w)) = dispatched w @ (evsx @ evsy)"
      using a r y(2) x(3) by simp
    then have "fired w (snd (for_in ?B (xs @ k # ys) w)) = evsx @ evsy"
      by (rule fired_append)
    then have "trace_types Q (fired w (snd (for_in ?B (xs @ k # ys) w))) = map f ksx @ map f ksy"
      using x(4) y(3) by (simp only: trace_types_append)
    then have "f k \<notin> set (trace_types Q (fired w (snd (for_in ?B (xs @ k # ys) w))))"
      using inj [OF kx] inj [OF ky] by simp
    then show ?thesis using False by blast
  qed
qed

lemma store_blind_observers: "store_blind w \<Longrightarrow> observers w t"
  by (auto simp: store_blind_def observers_def observer_def) (metis fst_conv)

lemma store_blind_prevented:
  assumes "store_blind w" and "listeners w' = listeners w"
  shows "prevented w' e = prevented w e"
proof -
  have "snd (h e (store w')) = snd (h e (store w))" if "h \<in> set (listeners w (ev_type e))" for h
    using assms(1) that unfolding store_blind_def by (metis snd_conv)
  then show ?thesis using assms(2) by (auto simp: prevented_def)
qed

lemma cacheEntryPrune_observers:
  assumes "observers w (k @ ''/prune'')" and "observers w (k @ ''/delete'')"
    and "k \<in> set (own_keys (store w))"
  shows "cacheEntryPrune JCache (JString k) w =
          (if prevented w (CancelableEvent (k @ ''/prune''))
           then (None, w\<lparr>dispatched := dispatched w @ [(CancelableEvent (k @ ''/prune''), store w)]\<rparr>)
           else (None, w\<lparr>store := delete_property k (store w),
                    dispatched := dispatched w @
                      [(CancelableEvent (k @ ''/prune''), store w),
                       (CustomEvent (k @ ''/delete''), delete_property k (store w))]\<rparr>))"
proof -
  let ?p = "CancelableEvent (k @ ''/prune'') :: 'a event"
  let ?w1 = "w\<lparr>dispatched := dispatched w @ [(?p, store w)]\<rparr>"
  have tp: "ev_type ?p = k @ ''/prune''" "cancelable ?p" by (simp_all add: CancelableEvent_def)
  have p: "dispatchEvent ?p w = (\<not> prevented w ?p, ?w1)"
    using dispatchEvent_observers [of w ?p] assms(1) tp by simp
  have h: "has_property ?w1 k" using assms(3) by (simp add: has_property_def)
  have o: "observers ?w1 (k @ ''/delete'')" using assms(2) by (simp add: observers_def)
  show ?thesis
    using p cacheEntryDelete_observers [OF h o] assms(3) by (simp add: cacheEntryPrune_def)
qed

lemma cacheDelete_loop:
  assumes "is_undefined m \<or> is_function m"
  shows "cacheDelete JCache m w =
           for_in (guarded (matches m) (\<lambda>k. cacheEntryDelete JCache (JString k)))
             (own_keys (store w)) w"
proof -
  have e: "(\<lambda>cacheKey w'. if matches m cacheKey
                           then cacheEntryDelete JCache (JString cacheKey) w' else (None, w')) =
           guarded (matches m) (\<lambda>k. cacheEntryDelete JCache (JString k))"
    by (rule ext)+ (simp add: guarded_def)
  show ?thesis using assms unfolding cacheDelete_def e by auto
qed

lemma cacheStale_loop:
  assumes "is_undefined m \<or> is_function m"
  shows "cacheStale JCache m w =
           for_in (guarded (matches m) (\<lambda>k. cacheEntryStale JCache (JString k)))
             (own_keys (store w)) w"
proof -
  have e: "(\<lambda>cacheKey w'. if matches m cacheKey
                           then cacheEntryStale JCache (JString cacheKey) w' else (None, w')) =
           guarded (matches m) (\<lambda>k. cacheEntryStale JCache (JString k))"
    by (rule ext)+ (simp add: guarded_def)
  show ?thesis using assms unfolding cacheStale_def e by auto
qed

lemma cachePrune_loop:
  assumes "is_undefined m \<or> is_function m"
  shows "cachePrune JCache m w =
           for_in (guarded (matches m) (\<lambda>k. cacheEntryPrune JCache (JString k)))
             (own_keys (store w)) w"
proof -
  have e: "(\<lambda>cacheKey w'. if matches m cacheKey
                           then cacheEntryPrune JCache (JString cacheKey) w' else (None, w')) =
           guarded (matches m) (\<lambda>k. cacheEntryPrune JCache (JString k))"
    by (rule ext)+ (simp add: guarded_def)
  show ?thesis using assms unfolding cachePrune_def e by auto
qed

lemma for_in_store:
  assumes step: "\<And>k w. I w \<Longrightarrow> has_property w k \<Longrightarrow> P k \<Longrightarrow>
       fst (entry_op k w) = None \<and> I (snd (entry_op k w))
       \<and> store (snd (entry_op k w)) = (if D k then delete_property k (store w) else store w)"
    and "I w"
  shows "fst (for_in (guarded P entry_op) ks w) = None
       \<and> store (snd (for_in (guarded P entry_op) ks w)) =
           filter (\<lambda>p. \<not> (fst p \<in> set ks \<and> P (fst p) \<and> D (fst p))) (store w)"
  using assms(2)
proof (induction ks arbitrary: w)
  case Nil
  show ?case by simp
next
  case (Cons k ks)
  show ?case
  proof (cases "has_property w k \<and> P k")
    case True
    from step [of w k] True Cons.prems have
      s: "fst (entry_op k w) = None" "I (snd (entry_op k w))"
         "store (snd (entry_op k w)) = (if D k then delete_property k (store w) else store w)"
      by simp_all
    have r: "for_in (guarded P entry_op) (k # ks) w =
               for_in (guarded P entry_op) ks (snd (entry_op k w))"
      using True s(1) by (cases "entry_op k w") (simp add: guarded_def)
    have f: "filter (\<lambda>p. \<not> (fst p \<in> set ks \<and> P (fst p) \<and> D (fst p)))
               (if D k then delete_property k (store w) else store w) =
             filter (\<lambda>p. \<not> (fst p \<in> set (k # ks) \<and> P (fst p) \<and> D (fst p))) (store w)"
      using True by (auto simp: delete_property_def intro: filter_cong)
    show ?thesis using Cons.IH [OF s(2)] r s(3) f by simp
  next
    case False
    have r: "for_in (guarded P entry_op) (k # ks) w = for_in (guarded P entry_op) ks w"
      using False by (auto simp: guarded_def)
    have f: "filter (\<lambda>p. \<not> (fst p \<in> set ks \<and> P (fst p) \<and> D (fst p))) (store w) =
             filter (\<lambda>p. \<not> (fst p \<in> set (k # ks) \<and> P (fst p) \<and> D (fst p))) (store w)"
      using False by (auto simp: own_keys_def has_property_def intro!: filter_cong)
    show ?thesis using Cons.IH [OF Cons.prems] r f by simp
  qed
qed

lemma for_in_exact:
  assumes step: "\<And>k w. I w \<Longrightarrow> k \<in> set (own_keys (store w)) \<Longrightarrow> P k \<Longrightarrow>
       fst (entry_op k w) = None \<and> I (snd (entry_op k w))
       \<and> set (own_keys (store w)) - {k} \<subseteq> set (own_keys (store (snd (entry_op k w))))
       \<and> (\<exists>evs. dispatched (snd (entry_op k w)) = dispatched w @ evs \<and> trace_types Q evs = F k)"
    and "I w" and "distinct ks" and "set ks \<subseteq> set (own_keys (store w))"
  shows "\<exists>evs. dispatched (snd (for_in (guarded P entry_op) ks w)) = dispatched w @ evs
           \<and> trace_types Q evs = concat (map F (filter P ks))"
  using assms(2-4)
proof (induction ks arbitrary: w)
  case Nil
  show ?case by (simp add: trace_types_def)
next
  case (Cons k ks)
  have own: "k \<in> set (own_keys (store w))" using Cons.prems(3) by simp
  then have hp: "has_property w k" by (simp add: has_property_def)
  show ?case
  proof (cases "P k")
    case True
    from step [OF Cons.prems(1) own True] obtain evs1 where
      s: "fst (entry_op k w) = None" "I (snd (entry_op k w))"
         "set (own_keys (store w)) - {k} \<subseteq> set (own_keys (store (snd (entry_op k w))))"
         "dispatched (snd (entry_op k w)) = dispatched w @ evs1" "trace_types Q evs1 = F k"
      by blast
    have sub: "set ks \<subseteq> set (own_keys (store (snd (entry_op k w))))"
      using s(3) Cons.prems(2,3) by auto
    have dk: "distinct ks" using Cons.prems(2) by simp
    from Cons.IH [OF s(2) dk sub] obtain evs where
      i: "dispatched (snd (for_in (guarded P entry_op) ks (snd (entry_op k w)))) =
            dispatched (snd (entry_op k w)) @ evs"
         "trace_types Q evs = concat (map F (filter P ks))" by blast
    have r: "for_in (guarded P entry_op) (k # ks) w =
               for_in (guarded P entry_op) ks (snd (entry_op k w))"
      using True hp s(1) by (cases "entry_op k w") (simp add: guarded_def)
    have "dispatched (snd (for_in (guarded P entry_op) (k # ks) w)) = dispatched w @ (evs1 @ evs)"
      using r i(1) s(4) by simp
    moreover have "trace_types Q (evs1 @ evs) = concat (map F (filter P (k # ks)))"
      using True s(5) i(2) by (simp add: trace_types_append)
    ultimately show ?thesis by blast
  next
    case False
    have r: "for_in (guarded P entry_op) (k # ks) w = for_in (guarded P entry_op) ks w"
      using False hp by (simp add: guarded_def)
    have sub: "set ks \<subseteq> set (own_keys (store w))" using Cons.prems(3) by simp
    have dk: "distinct ks" using Cons.prems(2) by simp
    from Cons.IH [OF Cons.prems(1) dk sub] obtain evs where
      i: "dispatched (snd (for_in (guarded P entry_op) ks w)) = dispatched w @ evs"
         "trace_types Q evs = concat (map F (filter P ks))" by blast
    show ?thesis using r i False by simp
  qed
qed

lemma concat_singletons: "concat (map (\<lambda>k. [f k]) ks) = map f ks"
  by (induction ks) simp_all

lemma concat_optional:
  "concat (map (\<lambda>k. if v k then [] else [g k]) (filter P ks)) =
     map g (filter (\<lambda>k. P k \<and> \<not> v k) ks)"
  by (induction ks) simp_all

lemma delete_step:
  assumes "has_property w k"
  shows "fst (cacheEntryDelete JCache (JString k) w) = None
       \<and> (\<exists>evs. dispatched (snd (cacheEntryDelete JCache (JString k) w)) = dispatched w @ evs
              \<and> trace_types (\<lambda>e. True) evs = (if True then [k @ ''/delete''] else []))"
  using cacheEntryDelete_present [OF assms] by (simp add: trace_types_def CustomEvent_def)

lemma stale_step:
  assumes "has_property w k"
  shows "fst (cacheEntryStale JCache (JString k) w) = None
       \<and> (\<exists>evs. dispatched (snd (cacheEntryStale JCache (JString k) w)) = dispatched w @ evs
              \<and> trace_types (\<lambda>e. True) evs = (if True then [k @ ''/stale''] else []))"
  using cacheEntryStale_present [OF assms] by (simp add: trace_types_def CustomEvent_def)

lemma cacheEntryDelete_trace:
  "fst (cacheEntryDelete JCache (JString k) w) = None
   \<and> (\<exists>evs. dispatched (snd (cacheEntryDelete JCache (JString k) w)) = dispatched w @ evs
          \<and> trace_types cancelable evs = [])"
proof (cases "has_property w k")
  case True
  then show ?thesis
    using cacheEntryDelete_present [OF True] by (simp add: trace_types_def CustomEvent_def)
next
  case False
  then show ?thesis by (simp add: cacheEntryDelete_absent trace_types_def)
qed

lemma prune_step:
  "fst (cacheEntryPrune JCache (JString k) w) = None
       \<and> (\<exists>evs. dispatched (snd (cacheEntryPrune JCache (JString k) w)) = dispatched w @ evs
              \<and> trace_types cancelable evs =
                  (if k \<in> set (own_keys (store w)) then [k @ ''/prune''] else []))"
proof (cases "k \<in> set (own_keys (store w))")
  case own: True
  let ?p = "CancelableEvent (k @ ''/prune'') :: 'a event"
  let ?w1 = "snd (dispatchEvent ?p w)"
  have t1: "dispatched ?w1 = dispatched w @ [(?p, store w)]" by (rule dispatchEvent_trace)
  have m1: "trace_types cancelable [(?p, store w)] = [k @ ''/prune'']"
    by (simp add: trace_types_def CancelableEvent_def)
  show ?thesis
  proof (cases "fst (dispatchEvent ?p w)")
    case True
    then have r: "cacheEntryPrune JCache (JString k) w = cacheEntryDelete JCache (JString k) ?w1"
      using own by (simp add: cacheEntryPrune_def case_prod_beta)
    from cacheEntryDelete_trace [of k ?w1] obtain evs where
      d: "fst (cacheEntryDelete JCache (JString k) ?w1) = None"
         "dispatched (snd (cacheEntryDelete JCache (JString k) ?w1)) = dispatched ?w1 @ evs"
         "trace_types cancelable evs = []" by blast
    have "dispatched (snd (cacheEntryPrune JCache (JString k) w)) =
            dispatched w @ ([(?p, store w)] @ evs)"
      using r d(2) t1 by simp
    moreover have "trace_types cancelable ([(?p, store w)] @ evs) = [k @ ''/prune'']"
      using m1 d(3) by (simp only: trace_types_append) simp
    ultimately have "\<exists>evs. dispatched (snd (cacheEntryPrune JCache (JString k) w)) =
                        dispatched w @ evs \<and> trace_types cancelable evs = [k @ ''/prune'']"
      by blast
    then show ?thesis using r d(1) own by simp
  next
    case False
    then have r: "cacheEntryPrune JCache (JString k) w = (None, ?w1)"
      using own by (simp add: cacheEntryPrune_def case_prod_beta)
    show ?thesis using r t1 m1 own by simp
  qed
next
  case False
  then have "cacheEntryPrune JCache (JString k) w = (None, w)"
    by (simp add: cacheEntryPrune_def)
  then show ?thesis using False by (simp add: trace_types_def)
qed

lemma delete_store_step:
  assumes "store_blind w0" and "listeners w = listeners w0" and "has_property w k"
  shows "fst (cacheEntryDelete JCache (JString k) w) = None
       \<and> listeners (snd (cacheEntryDelete JCache (JString k) w)) = listeners w0
       \<and> store (snd (cacheEntryDelete JCache (JString k) w)) =
           (if True then delete_property k (store w) else store w)"
proof -
  have b: "store_blind w" using assms(1,2) by (simp add: store_blind_def)
  have h: "has_property w k" by (rule assms(3))
  show ?thesis
    using cacheEntryDelete_observers [OF h store_blind_observers [OF b]] assms(2) by simp
qed

lemma stale_store_step:
  assumes "store_blind w0" and "listeners w = listeners w0" and "has_property w k"
  shows "fst (cacheEntryStale JCache (JString k) w) = None
       \<and> listeners (snd (cacheEntryStale JCache (JString k) w)) = listeners w0
       \<and> store (snd (cacheEntryStale JCache (JString k) w)) =
           (if False then delete_property k (store w) else store w)"
proof -
  have b: "store_blind w" using assms(1,2) by (simp add: store_blind_def)
  have h: "has_property w k" by (rule assms(3))
  show ?thesis
    using cacheEntryStale_observers [OF h store_blind_observers [OF b]] assms(2) by simp
qed

lemma prune_store_step:
  assumes "store_blind w0" and "listeners w = listeners w0" and "has_property w k"
  shows "fst (cacheEntryPrune JCache (JString k) w) = None
       \<and> listeners (snd (cacheEntryPrune JCache (JString k) w)) = listeners w0
       \<and> store (snd (cacheEntryPrune JCache (JString k) w)) =
           (if \<not> vetoes w0 k then delete_property k (store w) else store w)"
proof (cases "k \<in> set (own_keys (store w))")
  case True
  have b: "store_blind w" using assms(1,2) by (simp add: store_blind_def)
  have v: "prevented w (CancelableEvent (k @ ''/prune'')) = vetoes w0 k"
    using store_blind_prevented [OF assms(1,2)] by (simp add: vetoes_def)
  show ?thesis
    using cacheEntryPrune_observers
            [OF store_blind_observers [OF b] store_blind_observers [OF b] True] assms(2) v
    by simp
next
  case False
  then have "cacheEntryPrune JCache (JString k) w = (None, w)"
    by (simp add: cacheEntryPrune_def)
  then show ?thesis using assms(2) delete_property_absent [OF False] by simp
qed

lemma cacheDelete_store:
  assumes "is_undefined m \<or> is_function m" and "store_blind w"
  shows "fst (cacheDelete JCache m w) = None
       \<and> store (snd (cacheDelete JCache m w)) = filter (\<lambda>p. \<not> matches m (fst p)) (store w)"
proof -
  let ?loop = "for_in (guarded (matches m) (\<lambda>k. cacheEntryDelete JCache (JString k)))
                 (own_keys (store w)) w"
  have f: "filter (\<lambda>p. \<not> (fst p \<in> set (own_keys (store w)) \<and> matches m (fst p) \<and> True)) (store w)
           = filter (\<lambda>p. \<not> matches m (fst p)) (store w)"
    by (rule filter_cong) (auto simp: own_keys_def)
  have l: "fst ?loop = None \<and> store (snd ?loop) =
             filter (\<lambda>p. \<not> (fst p \<in> set (own_keys (store w)) \<and> matches m (fst p) \<and> True)) (store w)"
  proof (rule for_in_store [where I = "\<lambda>w' :: 'a world. listeners w' = listeners w" and D = "\<lambda>k. True"])
    fix k and w' :: "'a world"
    assume "listeners w' = listeners w" and "has_property w' k"
    then show "fst (cacheEntryDelete JCache (JString k) w') = None
       \<and> listeners (snd (cacheEntryDelete JCache (JString k) w')) = listeners w
       \<and> store (snd (cacheEntryDelete JCache (JString k) w')) =
           (if True then delete_property k (store w') else store w')"
      by (rule delete_store_step [OF assms(2)])
  next
    show "listeners w = listeners w" by (rule refl)
  qed
  show ?thesis unfolding cacheDelete_loop [OF assms(1)] using l f by (simp only:)
qed

lemma cacheStale_store:
  assumes "is_undefined m \<or> is_function m" and "store_blind w"
  shows "fst (cacheStale JCache m w) = None \<and> store (snd (cacheStale JCache m w)) = store w"
proof -
  let ?loop = "for_in (guarded (matches m) (\<lambda>k. cacheEntryStale JCache (JString k)))
                 (own_keys (store w)) w"
  have f: "filter (\<lambda>p. \<not> (fst p \<in> set (own_keys (store w)) \<and> matches m (fst p) \<and> False)) (store w)
           = store w"
    by simp
  have l: "fst ?loop = None \<and> store (snd ?loop) =
             filter (\<lambda>p. \<not> (fst p \<in> set (own_keys (store w)) \<and> matches m (fst p) \<and> False)) (store w)"
  proof (rule for_in_store [where I = "\<lambda>w' :: 'a world. listeners w' = listeners w" and D = "\<lambda>k. False"])
    fix k and w' :: "'a world"
    assume "listeners w' = listeners w" and "has_property w' k"
    then show "fst (cacheEntryStale JCache (JString k) w') = None
       \<and> listeners (snd (cacheEntryStale JCache (JString k) w')) = listeners w
       \<and> store (snd (cacheEntryStale JCache (JString k) w')) =
           (if False then delete_property k (store w') else store w')"
      by (rule stale_store_step [OF assms(2)])
  next
    show "listeners w = listeners w" by (rule refl)
  qed
  show ?thesis unfolding cacheStale_loop [OF assms(1)] using l f by (simp only:)
qed

lemma cachePrune_store:
  assumes "is_undefined m \<or> is_function m" and "store_blind w"
  shows "fst (cachePrune JCache m w) = None
       \<and> store (snd (cachePrune JCache m w)) =
           filter (\<lambda>p. \<not> (matches m (fst p) \<and> \<not> vetoes w (fst p))) (store w)"
proof -
  let ?loop = "for_in (guarded (matches m) (\<lambda>k. cacheEntryPrune JCache (JString k)))
                 (own_keys (store w)) w"
  have f: "filter (\<lambda>p. \<not> (fst p \<in> set (own_keys (store w)) \<and> matches m (fst p)
                          \<and> \<not> vetoes w (fst p))) (store w)
           = filter (\<lambda>p. \<not> (matches m (fst p) \<and> \<not> vetoes w (fst p))) (store w)"
    by (rule filter_cong) (auto simp: own_keys_def)
  have l: "fst ?loop = None \<and> store (snd ?loop) =
             filter (\<lambda>p. \<not> (fst p \<in> set (own_keys (store w)) \<and> matches m (fst p)
                          \<and> \<not> vetoes w (fst p))) (store w)"
  proof (rule for_in_store [where I = "\<lambda>w' :: 'a world. listeners w' = listeners w"
                              and D = "\<lambda>k. \<not> vetoes w k"])
    fix k and w' :: "'a world"
    assume "listeners w' = listeners w" and "has_property w' k"
    then show "fst (cacheEntryPrune JCache (JString k) w') = None
       \<and> listeners (snd (cacheEntryPrune JCache (JString k) w')) = listeners w
       \<and> store (snd (cacheEntryPrune JCache (JString k) w')) =
           (if \<not> vetoes w k then delete_property k (store w') else store w')"
      by (rule prune_store_step [OF assms(2)])
  next
    show "listeners w = listeners w" by (rule refl)
  qed
  show ?thesis unfolding cachePrune_loop [OF assms(1)] using l f by (simp only:)
qed

lemma vetoes_store: "vetoes (w\<lparr>store := s\<rparr>) k = vetoes w k" if "store_blind w"
  using store_blind_prevented [OF that, of "w\<lparr>store := s\<rparr>"] by (simp add: vetoes_def)

lemma delete_exact_step:
  assumes "store_blind w0" and "listeners w = listeners w0" and "k \<in> set (own_keys (store w))"
  shows "fst (cacheEntryDelete JCache (JString k) w) = None
       \<and> listeners (snd (cacheEntryDelete JCache (JString k) w)) = listeners w0
       \<and> set (own_keys (store w)) - {k}
            \<subseteq> set (own_keys (store (snd (cacheEntryDelete JCache (JString k) w))))
       \<and> (\<exists>evs. dispatched (snd (cacheEntryDelete JCache (JString k) w)) = dispatched w @ evs
              \<and> trace_types (\<lambda>e. True) evs = [k @ ''/delete''])"
proof -
  have b: "store_blind w" using assms(1,2) by (simp add: store_blind_def)
  have h: "has_property w k" using assms(3) by (simp add: has_property_def)
  show ?thesis
    using cacheEntryDelete_observers [OF h store_blind_observers [OF b]] assms(2)
    by (simp add: delete_property_keys trace_types_def CustomEvent_def)
qed

lemma stale_exact_step:
  assumes "store_blind w0" and "listeners w = listeners w0" and "k \<in> set (own_keys (store w))"
  shows "fst (cacheEntryStale JCache (JString k) w) = None
       \<and> listeners (snd (cacheEntryStale JCache (JString k) w)) = listeners w0
       \<and> set (own_keys (store w)) - {k}
            \<subseteq> set (own_keys (store (snd (cacheEntryStale JCache (JString k) w))))
       \<and> (\<exists>evs. dispatched (snd (cacheEntryStale JCache (JString k) w)) = dispatched w @ evs
              \<and> trace_types (\<lambda>e. True) evs = [k @ ''/stale''])"
proof -
  have b: "store_blind w" using assms(1,2) by (simp add: store_blind_def)
  have h: "has_property w k" using assms(3) by (simp add: has_property_def)
  show ?thesis
    using cacheEntryStale_observers [OF h store_blind_observers [OF b]] assms(2)
    by (auto simp: trace_types_def CustomEvent_def)
qed

lemma prune_exact_step:
  assumes "store_blind w0" and "listeners w = listeners w0" and "k \<in> set (own_keys (store w))"
  shows "fst (cacheEntryPrune JCache (JString k) w) = None
       \<and> listeners (snd (cacheEntryPrune JCache (JString k) w)) = listeners w0
       \<and> set (own_keys (store w)) - {k}
            \<subseteq> set (own_keys (store (snd (cacheEntryPrune JCache (JString k) w))))
       \<and> (\<exists>evs. dispatched (snd (cacheEntryPrune JCache (JString k) w)) = dispatched w @ evs
              \<and> trace_types cancelable evs = [k @ ''/prune''])"
    and "fst (cacheEntryPrune JCache (JString k) w) = None
       \<and> listeners (snd (cacheEntryPrune JCache (JString k) w)) = listeners w0
       \<and> set (own_keys (store w)) - {k}
            \<subseteq> set (own_keys (store (snd (cacheEntryPrune JCache (JString k) w))))
       \<and> (\<exists>evs. dispatched (snd (cacheEntryPrune JCache (JString k) w)) = dispatched w @ evs
              \<and> trace_types (\<lambda>e. \<not> cancelable e) evs =
                  (if vetoes w0 k then [] else [k @ ''/delete'']))"
proof -
  have b: "store_blind w" using assms(1,2) by (simp add: store_blind_def)
  have v: "prevented w (CancelableEvent (k @ ''/prune'')) = vetoes w0 k"
    using store_blind_prevented [OF assms(1,2)] by (simp add: vetoes_def)
  note r = cacheEntryPrune_observers
             [OF store_blind_observers [OF b] store_blind_observers [OF b] assms(3)]
  show "fst (cacheEntryPrune JCache (JString k) w) = None
       \<and> listeners (snd (cacheEntryPrune JCache (JString k) w)) = listeners w0
       \<and> set (own_keys (store w)) - {k}
            \<subseteq> set (own_keys (store (snd (cacheEntryPrune JCache (JString k) w))))
       \<and> (\<exists>evs. dispatched (snd (cacheEntryPrune JCache (JString k) w)) = dispatched w @ evs
              \<and> trace_types cancelable evs = [k @ ''/prune''])"
    using r v assms(2)
    by (auto simp: delete_property_keys trace_types_def CustomEvent_def CancelableEvent_def)
  show "fst (cacheEntryPrune JCache (JString k) w) = None
       \<and> listeners (snd (cacheEntryPrune JCache (JString k) w)) = listeners w0
       \<and> set (own_keys (store w)) - {k}
            \<subseteq> set (own_keys (store (snd (cacheEntryPrune JCache (JString k) w))))
       \<and> (\<exists>evs. dispatched (snd (cacheEntryPrune JCache (JString k) w)) = dispatched w @ evs
              \<and> trace_types (\<lambda>e. \<not> cancelable e) evs =
                  (if vetoes w0 k then [] else [k @ ''/delete'']))"
    using r v assms(2)
    by (auto simp: delete_property_keys trace_types_def CustomEvent_def CancelableEvent_def)
qed

lemma cacheDelete_fired:
  assumes "is_undefined m \<or> is_function m" and "store_blind w"
    and "distinct (own_keys (store w))"
  shows "trace_types (\<lambda>e. True) (fired w (snd (cacheDelete JCache m w))) =
           map (\<lambda>k. k @ ''/delete'') (filter (matches m) (own_keys (store w)))"
proof -
  let ?loop = "for_in (guarded (matches m) (\<lambda>k. cacheEntryDelete JCache (JString k)))
                 (own_keys (store w)) w"
  have "\<exists>evs. dispatched (snd ?loop) = dispatched w @ evs
          \<and> trace_types (\<lambda>e. True) evs =
              concat (map (\<lambda>k. [k @ ''/delete'']) (filter (matches m) (own_keys (store w))))"
  proof (rule for_in_exact [where I = "\<lambda>w' :: 'a world. listeners w' = listeners w"])
    fix k and w' :: "'a world"
    assume "listeners w' = listeners w" and "k \<in> set (own_keys (store w'))"
    then show "fst (cacheEntryDelete JCache (JString k) w') = None
       \<and> listeners (snd (cacheEntryDelete JCache (JString k) w')) = listeners w
       \<and> set (own_keys (store w')) - {k}
            \<subseteq> set (own_keys (store (snd (cacheEntryDelete JCache (JString k) w'))))
       \<and> (\<exists>evs. dispatched (snd (cacheEntryDelete JCache (JString k) w')) = dispatched w' @ evs
              \<and> trace_types (\<lambda>e. True) evs = [k @ ''/delete''])"
      by (rule delete_exact_step [OF assms(2)])
  qed (simp_all add: assms(3))
  then obtain evs where
    e: "dispatched (snd ?loop) = dispatched w @ evs"
       "trace_types (\<lambda>e. True) evs =
          concat (map (\<lambda>k. [k @ ''/delete'']) (filter (matches m) (own_keys (store w))))"
    by blast
  show ?thesis
    unfolding cacheDelete_loop [OF assms(1)] fired_append [OF e(1)] e(2)
    by (rule concat_singletons)
qed

lemma cacheStale_fired:
  assumes "is_undefined m \<or> is_function m" and "store_blind w"
    and "distinct (own_keys (store w))"
  shows "trace_types (\<lambda>e. True) (fired w (snd (cacheStale JCache m w))) =
           map (\<lambda>k. k @ ''/stale'') (filter (matches m) (own_keys (store w)))"
proof -
  let ?loop = "for_in (guarded (matches m) (\<lambda>k. cacheEntryStale JCache (JString k)))
                 (own_keys (store w)) w"
  have "\<exists>evs. dispatched (snd ?loop) = dispatched w @ evs
          \<and> trace_types (\<lambda>e. True) evs =
              concat (map (\<lambda>k. [k @ ''/stale'']) (filter (matches m) (own_keys (store w))))"
  proof (rule for_in_exact [where I = "\<lambda>w' :: 'a world. listeners w' = listeners w"])
    fix k and w' :: "'a world"
    assume "listeners w' = listeners w" and "k \<in> set (own_keys (store w'))"
    then show "fst (cacheEntryStale JCache (JString k) w') = None
       \<and> listeners (snd (cacheEntryStale JCache (JString k) w')) = listeners w
       \<and> set (own_keys (store w')) - {k}
            \<subseteq> set (own_keys (store (snd (cacheEntryStale JCache (JString k) w'))))
       \<and> (\<exists>evs. dispatched (snd (cacheEntryStale JCache (JString k) w')) = dispatched w' @ evs
              \<and> trace_types (\<lambda>e. True) evs = [k @ ''/stale''])"
      by (rule stale_exact_step [OF assms(2)])
  qed (simp_all add: assms(3))
  then obtain evs where
    e: "dispatched (snd ?loop) = dispatched w @ evs"
       "trace_types (\<lambda>e. True) evs =
          concat (map (\<lambda>k. [k @ ''/stale'']) (filter (matches m) (own_keys (store w))))"
    by blast
  show ?thesis
    unfolding cacheStale_loop [OF assms(1)] fired_append [OF e(1)] e(2)
    by (rule concat_singletons)
qed

lemma cachePrune_fired:
  assumes "is_undefined m \<or> is_function m" and "store_blind w"
    and "distinct (own_keys (store w))"
  shows "trace_types cancelable (fired w (snd (cachePrune JCache m w))) =
           map (\<lambda>k. k @ ''/prune'') (filter (matches m) (own_keys (store w)))"
    and "trace_types (\<lambda>e. \<not> cancelable e) (fired w (snd (cachePrune JCache m w))) =
           map (\<lambda>k. k @ ''/delete'')
             (filter (\<lambda>k. matches m k \<and> \<not> vetoes w k) (own_keys (store w)))"
proof -
  let ?loop = "for_in (guarded (matches m) (\<lambda>k. cacheEntryPrune JCache (JString k)))
                 (own_keys (store w)) w"
  have "\<exists>evs. dispatched (snd ?loop) = dispatched w @ evs
          \<and> trace_types cancelable evs =
              concat (map (\<lambda>k. [k @ ''/prune'']) (filter (matches m) (own_keys (store w))))"
  proof (rule for_in_exact [where I = "\<lambda>w' :: 'a world. listeners w' = listeners w"])
    fix k and w' :: "'a world"
    assume "listeners w' = listeners w" and "k \<in> set (own_keys (store w'))"
    then show "fst (cacheEntryPrune JCache (JString k) w') = None
       \<and> listeners (snd (cacheEntryPrune JCache (JString k) w')) = listeners w
       \<and> set (own_keys (store w')) - {k}
            \<subseteq> set (own_keys (store (snd (cacheEntryPrune JCache (JString k) w'))))
       \<and> (\<exists>evs. dispatched (snd (cacheEntryPrune JCache (JString k) w')) = dispatched w' @ evs
              \<and> trace_types cancelable evs = [k @ ''/prune''])"
      by (rule prune_exact_step(1) [OF assms(2)])
  qed (simp_all add: assms(3))
  then obtain evs where
    e: "dispatched (snd ?loop) = dispatched w @ evs"
       "trace_types cancelable evs =
          concat (map (\<lambda>k. [k @ ''/prune'']) (filter (matches m) (own_keys (store w))))"
    by blast
  show "trace_types cancelable (fired w (snd (cachePrune JCache m w))) =
           map (\<lambda>k. k @ ''/prune'') (filter (matches m) (own_keys (store w)))"
    unfolding cachePrune_loop [OF assms(1)] fired_append [OF e(1)] e(2)
    by (rule concat_singletons)
  have "\<exists>evs. dispatched (snd ?loop) = dispatched w @ evs
          \<and> trace_types (\<lambda>e. \<not> cancelable e) evs =
              concat (map (\<lambda>k. if vetoes w k then [] else [k @ ''/delete''])
                        (filter (matches m) (own_keys (store w))))"
  proof (rule for_in_exact [where I = "\<lambda>w' :: 'a world. listeners w' = listeners w"])
    fix k and w' :: "'a world"
    assume "listeners w' = listeners w" and "k \<in> set (own_keys (store w'))"
    then show "fst (cacheEntryPrune JCache (JString k) w') = None
       \<and> listeners (snd (cacheEntryPrune JCache (JString k) w')) = listeners w
       \<and> set (own_keys (store w')) - {k}
            \<subseteq> set (own_keys (store (snd (cacheEntryPrune JCache (JString k) w'))))
       \<and> (\<exists>evs. dispatched (snd (cacheEntryPrune JCache (JString k) w')) = dispatched w' @ evs
              \<and> trace_types (\<lambda>e. \<not> cancelable e) evs =
                  (if vetoes w k then [] else [k @ ''/delete'']))"
      by (rule prune_exact_step(2) [OF assms(2)])
  qed (simp_all add: assms(3))
  then obtain evs' where
    e': "dispatched (snd ?loop) = dispatched w @ evs'"
       "trace_types (\<lambda>e. \<not> cancelable e) evs' =
          concat (map (\<lambda>k. if vetoes w k then [] else [k @ ''/delete''])
                    (filter (matches m) (own_keys (store w))))"
    by blast
  show "trace_types (\<lambda>e. \<not> cancelable e) (fired w (snd (cachePrune JCache m w))) =
           map (\<lambda>k. k @ ''/delete'')
             (filter (\<lambda>k. matches m k \<and> \<not> vetoes w k) (own_keys (store w)))"
    unfolding cachePrune_loop [OF assms(1)] fired_append [OF e'(1)] e'(2)
    by (rule concat_optional)
qed

lemma inj_suffix: "inj (\<lambda>k :: string. k @ s)"
  by (simp add: inj_on_def)


section \<open>Entry operations\<close>

text \<open>
  C5. For every cache, key and value, \<open>cacheEntrySet\<close> succeeds and dispatches exactly
  one event: the non-cancelable \<open><key>/set\<close> with the new value as detail, dispatched
  on a store in which the key already holds the new value, whatever it held before. When
  the listeners of that event leave the store alone, a subsequent \<open>get\<close> of the key
  returns the value.
\<close>

theorem cacheEntrySet_then_get:
  "fst (cacheEntrySet JCache (JString k) v w) = None
   \<and> dispatched (snd (cacheEntrySet JCache (JString k) v w)) =
       dispatched w @ [(DetailEvent (k @ ''/set'') v, set_property k v (store w))]
   \<and> map_of (set_property k v (store w)) k = Some v
   \<and> (observers w (k @ ''/set'') \<longrightarrow>
        get (snd (cacheEntrySet JCache (JString k) v w)) k = Some v)"
proof -
  let ?w1 = "w\<lparr>store := set_property k v (store w)\<rparr>"
  let ?e = "DetailEvent (k @ ''/set'') v"
  have r: "cacheEntrySet JCache (JString k) v w = (None, snd (dispatchEvent ?e ?w1))"
    by (simp add: cacheEntrySet_def)
  have t: "dispatched (snd (dispatchEvent ?e ?w1)) =
             dispatched w @ [(?e, set_property k v (store w))]"
    by (simp add: dispatchEvent_trace)
  have g: "get (snd (dispatchEvent ?e ?w1)) k = Some v" if "observers w (k @ ''/set'')"
  proof -
    from that have "observers ?w1 (ev_type ?e)"
      by (simp add: observers_def DetailEvent_def)
    then have "store (snd (dispatchEvent ?e ?w1)) = set_property k v (store w)"
      using dispatchEvent_store [of ?w1 ?e] by simp
    then show ?thesis by (simp add: get_def set_property_map_of)
  qed
  show ?thesis using r t g by (simp add: set_property_map_of)
qed

theorem cacheEntrySet_then_get_witness:
  "observers set_world (''a'' @ ''/set'')
   \<and> get set_world ''a'' = Some 1
   \<and> get (snd (cacheEntrySet JCache (JString ''a'') 2 set_world)) ''a'' = Some 2
   \<and> dispatched (snd (cacheEntrySet JCache (JString ''a'') 2 set_world)) =
       [(DetailEvent ''a/set'' 2, [(''a'', 2)])]"
proof -
  have h: "observers set_world (''a'' @ ''/set'')"
    by (simp add: observers_def observer_recorder set_world_def addEventListener_def
          new_Cache_def)
  have d: "dispatched set_world = []" "store set_world = [(''a'', 1)]"
    by (simp_all add: set_world_def addEventListener_def new_Cache_def)
  from h d cacheEntrySet_then_get [of "''a''" 2 set_world] show ?thesis
    by (simp add: get_def)
qed

text \<open>
  C2. Provided the listeners of \<open><key>/prune\<close> and \<open><key>/delete\<close> leave the store
  alone: on an absent key \<open>cacheEntryPrune\<close> does nothing and dispatches nothing; on a
  present key it first dispatches the cancelable \<open><key>/prune\<close>; if a listener calls
  \<open>preventDefault\<close>, that is the only event and the store keeps the entry; otherwise
  the entry is removed and exactly one non-cancelable \<open><key>/delete\<close> follows,
  dispatched on the store without the entry.
\<close>

theorem cacheEntryPrune_protocol:
  assumes "observers w (k @ ''/prune'')" and "observers w (k @ ''/delete'')"
  shows "(k \<notin> set (own_keys (store w)) \<longrightarrow> cacheEntryPrune JCache (JString k) w = (None, w))
   \<and> (k \<in> set (own_keys (store w)) \<and> prevented w (CancelableEvent (k @ ''/prune'')) \<longrightarrow>
        cacheEntryPrune JCache (JString k) w =
          (None, w\<lparr>dispatched := dispatched w @ [(CancelableEvent (k @ ''/prune''), store w)]\<rparr>))
   \<and> (k \<in> set (own_keys (store w)) \<and> \<not> prevented w (CancelableEvent (k @ ''/prune'')) \<longrightarrow>
        cacheEntryPrune JCache (JString k) w =
          (None, w\<lparr>store := delete_property k (store w),
                    dispatched := dispatched w @
                      [(CancelableEvent (k @ ''/prune''), store w),
                       (CustomEvent (k @ ''/delete''), delete_property k (store w))]\<rparr>)
        \<and> k \<notin> set (own_keys (delete_property k (store w))))"
proof -
  let ?p = "CancelableEvent (k @ ''/prune'') :: 'a event"
  let ?d = "CustomEvent (k @ ''/delete'') :: 'a event"
  let ?w1 = "w\<lparr>dispatched := dispatched w @ [(?p, store w)]\<rparr>"
  have tp: "ev_type ?p = k @ ''/prune''" "cancelable ?p" by (simp_all add: CancelableEvent_def)
  have td: "ev_type ?d = k @ ''/delete''" "\<not> cancelable ?d" by (simp_all add: CustomEvent_def)
  have p: "dispatchEvent ?p w = (\<not> prevented w ?p, ?w1)"
    using dispatchEvent_observers [of w ?p] assms(1) tp by simp
  have o: "observers (?w1\<lparr>store := delete_property k (store w)\<rparr>) (ev_type ?d)"
    using assms(2) td by (simp add: observers_def)
  have d: "snd (dispatchEvent ?d (?w1\<lparr>store := delete_property k (store w)\<rparr>)) =
             w\<lparr>store := delete_property k (store w),
               dispatched := dispatched w @ [(?p, store w), (?d, delete_property k (store w))]\<rparr>"
    using dispatchEvent_observers [OF o] by simp
  show ?thesis
    using p d
    by (simp add: cacheEntryPrune_def cacheEntryDelete_def has_property_def delete_property_keys)
qed

theorem cacheEntryPrune_protocol_witness:
  "observers prune_world (''b'' @ ''/prune'') \<and> observers prune_world (''b'' @ ''/delete'')
   \<and> observers prune_prevented_world (''b'' @ ''/prune'')
   \<and> observers prune_prevented_world (''b'' @ ''/delete'')
   \<and> cacheEntryPrune JCache (JString ''c'') prune_world = (None, prune_world)
   \<and> store (snd (cacheEntryPrune JCache (JString ''b'') prune_prevented_world)) =
       [(''a'', 1), (''b'', 2)]
   \<and> dispatched (snd (cacheEntryPrune JCache (JString ''b'') prune_prevented_world)) =
       [(CancelableEvent ''b/prune'', [(''a'', 1), (''b'', 2)])]
   \<and> store (snd (cacheEntryPrune JCache (JString ''b'') prune_world)) = [(''a'', 1)]
   \<and> dispatched (snd (cacheEntryPrune JCache (JString ''b'') prune_world)) =
       [(CancelableEvent ''b/prune'', [(''a'', 1), (''b'', 2)]),
        (CustomEvent ''b/delete'', [(''a'', 1)])]"
proof -
  have o1: "observers prune_world (''b'' @ ''/prune'')" "observers prune_world (''b'' @ ''/delete'')"
    "observers prune_world (''c'' @ ''/prune'')" "observers prune_world (''c'' @ ''/delete'')"
    by (simp_all add: observers_def observer_recorder prune_world_def addEventListener_def
          new_Cache_def)
  have o2: "observers prune_prevented_world (''b'' @ ''/prune'')"
    "observers prune_prevented_world (''b'' @ ''/delete'')"
    by (simp_all add: observers_def observer_recorder observer_preventer
          prune_prevented_world_def addEventListener_def new_Cache_def)
  have s1: "store prune_world = [(''a'', 1), (''b'', 2)]" "dispatched prune_world = []"
    "\<not> prevented prune_world (CancelableEvent (''b'' @ ''/prune''))"
    by (simp_all add: prune_world_def addEventListener_def new_Cache_def prevented_def
          CancelableEvent_def recorder_def)
  have s2: "store prune_prevented_world = [(''a'', 1), (''b'', 2)]"
    "dispatched prune_prevented_world = []"
    "prevented prune_prevented_world (CancelableEvent (''b'' @ ''/prune''))"
    by (simp_all add: prune_prevented_world_def addEventListener_def new_Cache_def prevented_def
          CancelableEvent_def preventer_def)
  from cacheEntryPrune_protocol [OF o1(3) o1(4)] s1
  have a: "cacheEntryPrune JCache (JString ''c'') prune_world = (None, prune_world)"
    by (simp add: own_keys_def)
  from cacheEntryPrune_protocol [OF o2(1) o2(2)] s2
  have b: "cacheEntryPrune JCache (JString ''b'') prune_prevented_world =
             (None, prune_prevented_world
                \<lparr>dispatched := [(CancelableEvent (''b'' @ ''/prune''), [(''a'', 1), (''b'', 2)])]\<rparr>)"
    by (simp add: own_keys_def)
  from cacheEntryPrune_protocol [OF o1(1) o1(2)] s1
  have c: "cacheEntryPrune JCache (JString ''b'') prune_world =
             (None, prune_world
                \<lparr>store := delete_property ''b'' [(''a'', 1), (''b'', 2)],
                 dispatched := [(CancelableEvent (''b'' @ ''/prune''), [(''a'', 1), (''b'', 2)]),
                   (CustomEvent (''b'' @ ''/delete''),
                    delete_property ''b'' [(''a'', 1), (''b'', 2)])]\<rparr>)"
    by (simp add: own_keys_def)
  show ?thesis using o1 o2 a b c s2(1) by (simp add: delete_property_def)
qed

text \<open>
  C3. \<open>cacheEntryStale\<close> tests the key with the \<open>in\<close> operator, which is also true
  of the names the store object inherits. For the key \<open>toString\<close>, absent from the
  store of \<open>new Cache()\<close>, it raises no error: it dispatches \<open>toString/stale\<close> and
  returns. (Lemmas \<open>cacheEntryStale_absent\<close>, \<open>cacheEntryStale_present\<close> and
  \<open>cacheEntryStale_observers\<close> give the behaviour the claim describes for every key
  that is an own property or is not a property at all.)
\<close>

theorem cacheEntryStale_inherited_name:
  "''toString'' \<notin> set (own_keys (store empty_world))
   \<and> cacheEntryStale JCache (JString ''toString'') empty_world =
       (None, empty_world\<lparr>dispatched := [(CustomEvent ''toString/stale'', [])]\<rparr>)"
  by (simp add: cacheEntryStale_def empty_world_def new_Cache_def own_keys_def has_property_def
        object_prototype_def dispatchEvent_def)

text \<open>
  C4. \<open>cacheEntryDelete\<close> tests the key with the \<open>in\<close> operator as well. For the key
  \<open>toString\<close>, absent from the store of \<open>new Cache()\<close>, it is no no-op: the
  \<open>delete\<close> removes nothing, and \<open>toString/delete\<close> is dispatched. (Lemmas
  \<open>cacheEntryDelete_absent\<close>, \<open>cacheEntryDelete_present\<close> and
  \<open>cacheEntryDelete_observers\<close> give the behaviour the claim describes for every key
  that is an own property or is not a property at all: the event is dispatched on the
  store from which the key is already removed.)
\<close>

theorem cacheEntryDelete_inherited_name:
  "''toString'' \<notin> set (own_keys (store empty_world))
   \<and> cacheEntryDelete JCache (JString ''toString'') empty_world =
       (None, empty_world\<lparr>dispatched := [(CustomEvent ''toString/delete'', [])]\<rparr>)"
  by (simp add: cacheEntryDelete_def empty_world_def new_Cache_def own_keys_def has_property_def
        object_prototype_def dispatchEvent_def delete_property_def)

text \<open>
  C9. Each cache operation of the sources checks its arguments before anything else: when
  the first argument is no \<open>Cache\<close> instance, or the second is no string (entry
  operations) or is neither undefined nor a function (bulk operations), the call ends
  with a \<open>TypeError\<close> and the state is exactly what it was: nothing is written and
  nothing is dispatched.
\<close>

theorem argument_errors_precede_effects:
  "(\<not> instanceof_Cache cache \<or> \<not> is_string cacheKey \<longrightarrow>
      (\<exists>m. cacheEntryDelete cache cacheKey w = (Some (TypeError m), w))
      \<and> (\<exists>m. cacheEntryStale cache cacheKey w = (Some (TypeError m), w)))
   \<and> (\<not> instanceof_Cache cache \<or> \<not> is_undefined matcher \<and> \<not> is_function matcher \<longrightarrow>
      (\<exists>m. cacheDelete cache matcher w = (Some (TypeError m), w))
      \<and> (\<exists>m. cachePrune cache matcher w = (Some (TypeError m), w))
      \<and> (\<exists>m. cacheStale cache matcher w = (Some (TypeError m), w)))"
  by (simp add: cacheEntryDelete_def cacheEntryStale_def cacheDelete_def cachePrune_def
        cacheStale_def arg_error_def)

theorem argument_errors_precede_effects_witness:
  "\<not> instanceof_Cache (JBoolean True) \<and> \<not> is_string (JBoolean True)
   \<and> \<not> is_undefined (JBoolean True) \<and> \<not> is_function (JBoolean True)
   \<and> cacheEntryDelete (JBoolean True) (JString ''a'') delete_world_ab =
        (Some (TypeError ''Argument 1 `cache` must be a `Cache` instance.''), delete_world_ab)
   \<and> cacheEntryStale JCache (JBoolean True) delete_world_ab =
        (Some (TypeError ''Argument 2 `cacheKey` must be a string.''), delete_world_ab)
   \<and> cacheDelete JCache (JBoolean True) delete_world_ab =
        (Some (TypeError ''Argument 2 `cacheKeyMatcher` must be a function.''), delete_world_ab)
   \<and> cachePrune (JBoolean True) JUndefined (delete_world_ab\<lparr>production := True\<rparr>) =
        (Some (TypeError ''Argument 1 type invalid.''), delete_world_ab\<lparr>production := True\<rparr>)
   \<and> cacheStale JNull JUndefined delete_world_ab =
        (Some (TypeError ''Argument 1 `cache` must be a `Cache` instance.''), delete_world_ab)"
proof -
  have p: "\<not> production delete_world_ab"
    by (simp add: delete_world_ab_def addEventListener_def new_Cache_def)
  have a: "\<exists>m. cacheEntryDelete (JBoolean True) (JString ''a'') delete_world_ab =
             (Some (TypeError m), delete_world_ab)"
    using argument_errors_precede_effects
            [of "JBoolean True" "JString ''a''" delete_world_ab JUndefined]
    by simp
  have b: "\<exists>m. cacheEntryStale JCache (JBoolean True) delete_world_ab =
             (Some (TypeError m), delete_world_ab)"
    using argument_errors_precede_effects [of JCache "JBoolean True" delete_world_ab JUndefined]
    by simp
  have c: "\<exists>m. cacheDelete JCache (JBoolean True) delete_world_ab =
             (Some (TypeError m), delete_world_ab)"
    using argument_errors_precede_effects
            [of JCache "JString ''a''" delete_world_ab "JBoolean True"]
    by simp
  show ?thesis using a b c p
    by (simp add: cacheEntryDelete_def cacheEntryStale_def cacheDelete_def cachePrune_def
        cacheStale_def arg_error_def createArgErrorMessageProd_def)
qed

section \<open>Bulk operations\<close>

text \<open>
  C7. On \<open>new Cache({ a: 1, b: 2 })\<close>, \<open>cacheDelete\<close> without a matcher empties the
  store and dispatches exactly \<open>a/delete\<close>, then \<open>b/delete\<close>. On
  \<open>new Cache({ a: 1, b: 2, c: 3 })\<close> with the matcher \<open>k => k !== "b"\<close> it leaves
  the store \<open>{ b: 2 }\<close> and dispatches exactly \<open>a/delete\<close>, then \<open>c/delete\<close>.
\<close>

theorem cacheDelete_scenarios:
  "cacheDelete JCache JUndefined delete_world_ab =
     (None, delete_world_ab
        \<lparr>store := [],
         dispatched := [(CustomEvent ''a/delete'', [(''b'', 2)]), (CustomEvent ''b/delete'', [])]\<rparr>)
   \<and> cacheDelete JCache not_b delete_world_abc =
     (None, delete_world_abc
        \<lparr>store := [(''b'', 2)],
         dispatched := [(CustomEvent ''a/delete'', [(''b'', 2), (''c'', 3)]),
                        (CustomEvent ''c/delete'', [(''b'', 2)])]\<rparr>)"
  by (simp add: cacheDelete_def delete_world_ab_def delete_world_abc_def not_b_def
        addEventListener_def new_Cache_def own_keys_def matches_def cacheEntryDelete_def
        has_property_def delete_property_def dispatchEvent_def CustomEvent_def recorder_def)

text \<open>
  C6, as the code has it. The bulk operations run \<open>for ... in\<close> over the live store,
  without a copy of the key list. Whatever the listeners do, each operation ends without
  an error, and the keys it processes (one \<open>delete\<close>, \<open>stale\<close> or \<open>prune\<close> event
  per processed key) are a subsequence of the matching keys of the store at call time: in
  enumeration order, none twice, none that was added meanwhile. Which ones: a key \<open>k\<close> of
  the store at call time, after the keys \<open>xs\<close>, is processed by \<open>cacheDelete\<close> and
  \<open>cacheStale\<close> exactly when it matches and is still a property of the store object
  (own or inherited) in the world the loop has reached when the turn of \<open>k\<close> comes, and
  pruned by \<open>cachePrune\<close> exactly when it matches and is still an own property then. So
  a key that a listener removed before its turn is skipped, unless the store object still
  inherits a property of that name.
\<close>

theorem bulk_visits_in_enumeration_order:
  assumes "is_undefined m \<or> is_function m" and "distinct (own_keys (store w))"
    and "own_keys (store w) = xs @ k # ys"
  shows "(fst (cacheDelete JCache m w) = None
          \<and> (\<exists>ks. subseq ks (filter (matches m) (own_keys (store w))) \<and> distinct ks
                \<and> trace_types (\<lambda>e. True) (fired w (snd (cacheDelete JCache m w))) =
                    map (\<lambda>k. k @ ''/delete'') ks)
          \<and> (k @ ''/delete'' \<in> set (trace_types (\<lambda>e. True) (fired w (snd (cacheDelete JCache m w)))))
              = (matches m k
                 \<and> has_property (world_at_turn (\<lambda>k. cacheEntryDelete JCache (JString k)) m xs w) k))
       \<and> (fst (cacheStale JCache m w) = None
          \<and> (\<exists>ks. subseq ks (filter (matches m) (own_keys (store w))) \<and> distinct ks
                \<and> trace_types (\<lambda>e. True) (fired w (snd (cacheStale JCache m w))) =
                    map (\<lambda>k. k @ ''/stale'') ks)
          \<and> (k @ ''/stale'' \<in> set (trace_types (\<lambda>e. True) (fired w (snd (cacheStale JCache m w)))))
              = (matches m k
                 \<and> has_property (world_at_turn (\<lambda>k. cacheEntryStale JCache (JString k)) m xs w) k))
       \<and> (fst (cachePrune JCache m w) = None
          \<and> (\<exists>ks. subseq ks (filter (matches m) (own_keys (store w))) \<and> distinct ks
                \<and> trace_types cancelable (fired w (snd (cachePrune JCache m w))) =
                    map (\<lambda>k. k @ ''/prune'') ks)
          \<and> (k @ ''/prune'' \<in> set (trace_types cancelable (fired w (snd (cachePrune JCache m w)))))
              = (matches m k
                 \<and> k \<in> set (own_keys (store
                       (world_at_turn (\<lambda>k. cacheEntryPrune JCache (JString k)) m xs w)))))"
proof -
  have d: "distinct ks" if "subseq ks (filter (matches m) (own_keys (store w)))" for ks
    using that assms(2) subseq_distinct [of ks "filter (matches m) (own_keys (store w))"]
    by simp
  have dx: "distinct (xs @ k # ys)" using assms(2,3) by simp
  have v: "fst (for_in (guarded (matches m) entry_op) (own_keys (store w)) w) = None
       \<and> (\<exists>ks. subseq ks (filter (matches m) (own_keys (store w))) \<and> distinct ks
             \<and> trace_types Q (fired w (snd (for_in (guarded (matches m) entry_op)
                                               (own_keys (store w)) w))) = map f ks)"
    if step: "\<And>k w. has_property w k \<Longrightarrow> matches m k \<Longrightarrow>
       fst (entry_op k w) = None
       \<and> (\<exists>evs. dispatched (snd (entry_op k w)) = dispatched w @ evs
              \<and> trace_types Q evs = (if R w k then [f k] else []))"
    for entry_op :: "string \<Rightarrow> 'a world \<Rightarrow> error option \<times> 'a world" and Q R f
  proof -
    from for_in_visits [of "matches m" entry_op Q R f "own_keys (store w)" w, OF step]
    obtain ks evs where
      a: "fst (for_in (guarded (matches m) entry_op) (own_keys (store w)) w) = None"
         "subseq ks (filter (matches m) (own_keys (store w)))"
         "dispatched (snd (for_in (guarded (matches m) entry_op) (own_keys (store w)) w)) =
            dispatched w @ evs"
         "trace_types Q evs = map f ks" by blast
    have "trace_types Q (fired w (snd (for_in (guarded (matches m) entry_op)
                                          (own_keys (store w)) w))) = map f ks"
      using fired_append [OF a(3)] a(4) by simp
    then show ?thesis using a(1,2) d [OF a(2)] by blast
  qed
  have sd: "\<And>k w :: 'a world. has_property w k \<Longrightarrow> matches m k \<Longrightarrow>
       fst (cacheEntryDelete JCache (JString k) w) = None
       \<and> (\<exists>evs. dispatched (snd (cacheEntryDelete JCache (JString k) w)) = dispatched w @ evs
              \<and> trace_types (\<lambda>e. True) evs = (if True then [k @ ''/delete''] else []))"
    by (rule delete_step)
  have ss: "\<And>k w :: 'a world. has_property w k \<Longrightarrow> matches m k \<Longrightarrow>
       fst (cacheEntryStale JCache (JString k) w) = None
       \<and> (\<exists>evs. dispatched (snd (cacheEntryStale JCache (JString k) w)) = dispatched w @ evs
              \<and> trace_types (\<lambda>e. True) evs = (if True then [k @ ''/stale''] else []))"
    by (rule stale_step)
  have sp: "\<And>k w :: 'a world. has_property w k \<Longrightarrow> matches m k \<Longrightarrow>
       fst (cacheEntryPrune JCache (JString k) w) = None
       \<and> (\<exists>evs. dispatched (snd (cacheEntryPrune JCache (JString k) w)) = dispatched w @ evs
              \<and> trace_types cancelable evs =
                  (if k \<in> set (own_keys (store w)) then [k @ ''/prune''] else []))"
    by (rule prune_step)
  have td: "(k @ ''/delete'' \<in> set (trace_types (\<lambda>e. True) (fired w (snd (cacheDelete JCache m w)))))
              = (matches m k
                 \<and> has_property (world_at_turn (\<lambda>k. cacheEntryDelete JCache (JString k)) m xs w) k)"
    using for_in_turn [of "matches m" "\<lambda>k. cacheEntryDelete JCache (JString k)" "\<lambda>e. True"
            "\<lambda>w k. True" "\<lambda>k. k @ ''/delete''" xs k ys w, OF sd inj_suffix dx]
    unfolding cacheDelete_loop [OF assms(1)] assms(3) world_at_turn_def by simp
  have ts: "(k @ ''/stale'' \<in> set (trace_types (\<lambda>e. True) (fired w (snd (cacheStale JCache m w)))))
              = (matches m k
                 \<and> has_property (world_at_turn (\<lambda>k. cacheEntryStale JCache (JString k)) m xs w) k)"
    using for_in_turn [of "matches m" "\<lambda>k. cacheEntryStale JCache (JString k)" "\<lambda>e. True"
            "\<lambda>w k. True" "\<lambda>k. k @ ''/stale''" xs k ys w, OF ss inj_suffix dx]
    unfolding cacheStale_loop [OF assms(1)] assms(3) world_at_turn_def by simp
  have tp: "(k @ ''/prune'' \<in> set (trace_types cancelable (fired w (snd (cachePrune JCache m w)))))
              = (matches m k
                 \<and> k \<in> set (own_keys (store
                       (world_at_turn (\<lambda>k. cacheEntryPrune JCache (JString k)) m xs w))))"
    using for_in_turn [of "matches m" "\<lambda>k. cacheEntryPrune JCache (JString k)" cancelable
            "\<lambda>w k. k \<in> set (own_keys (store w))" "\<lambda>k. k @ ''/prune''" xs k ys w,
            OF sp inj_suffix dx]
    unfolding cachePrune_loop [OF assms(1)] assms(3) world_at_turn_def
    by (auto simp: has_property_def)
  show ?thesis
    using v [of "\<lambda>k. cacheEntryDelete JCache (JString k)" "\<lambda>e. True" "\<lambda>w k. True"
               "\<lambda>k. k @ ''/delete''", OF sd]
          v [of "\<lambda>k. cacheEntryStale JCache (JString k)" "\<lambda>e. True" "\<lambda>w k. True"
               "\<lambda>k. k @ ''/stale''", OF ss]
          v [of "\<lambda>k. cacheEntryPrune JCache (JString k)" cancelable
               "\<lambda>w k. k \<in> set (own_keys (store w))" "\<lambda>k. k @ ''/prune''", OF sp]
          td ts tp
    unfolding cacheDelete_loop [OF assms(1)] cacheStale_loop [OF assms(1)]
      cachePrune_loop [OF assms(1)]
    by (simp only:) 
qed

theorem bulk_visits_in_enumeration_order_witness:
  "(is_undefined JUndefined \<or> is_function JUndefined)
   \<and> distinct (own_keys (store stale_world))
   \<and> own_keys (store stale_world) = [] @ ''a'' # [''b'']
   \<and> own_keys (store stale_world) = [''a''] @ ''b'' # []
   \<and> distinct (own_keys (store shadow_world))
   \<and> own_keys (store shadow_world) = [''a''] @ ''toString'' # [''c'']
   \<and> ''a/stale'' \<in> set (trace_types (\<lambda>e. True)
         (dispatched (snd (cacheStale JCache JUndefined stale_world))))
   \<and> \<not> has_property
         (world_at_turn (\<lambda>k. cacheEntryStale JCache (JString k)) JUndefined [''a''] stale_world)
         ''b''
   \<and> ''b/stale'' \<notin> set (trace_types (\<lambda>e. True)
         (dispatched (snd (cacheStale JCache JUndefined stale_world))))
   \<and> ''toString'' \<notin> set (own_keys (store
         (world_at_turn (\<lambda>k. cacheEntryStale JCache (JString k)) JUndefined [''a'']
            shadow_world)))
   \<and> ''toString/stale'' \<in> set (trace_types (\<lambda>e. True)
         (dispatched (snd (cacheStale JCache JUndefined shadow_world))))"
proof -
  have m: "is_undefined JUndefined \<or> is_function JUndefined" by simp
  have s: "store stale_world = [(''a'', 1), (''b'', 2)]" "dispatched stale_world = []"
    "inherited stale_world = object_prototype"
    by (simp_all add: stale_world_def addEventListener_def new_Cache_def)
  have h: "store shadow_world = [(''a'', 1), (''toString'', 2), (''c'', 3)]"
    "dispatched shadow_world = []" "inherited shadow_world = object_prototype"
    by (simp_all add: shadow_world_def addEventListener_def new_Cache_def)
  have d: "distinct (own_keys (store stale_world))" "distinct (own_keys (store shadow_world))"
    by (simp_all add: s h own_keys_def)
  have k1: "own_keys (store stale_world) = [] @ ''a'' # [''b'']"
    and k2: "own_keys (store stale_world) = [''a''] @ ''b'' # []"
    and k3: "own_keys (store shadow_world) = [''a''] @ ''toString'' # [''c'']"
    by (simp_all add: s h own_keys_def)
  have f: "fired stale_world w' = dispatched w'" "fired shadow_world w' = dispatched w'"
    for w' :: "int world"
    by (simp_all add: fired_def s h)
  have t0: "world_at_turn (\<lambda>k. cacheEntryStale JCache (JString k)) JUndefined [] stale_world =
              stale_world"
    by (simp add: world_at_turn_def)
  have t1: "store (world_at_turn (\<lambda>k. cacheEntryStale JCache (JString k)) JUndefined [''a'']
                     stale_world) = [(''a'', 1)]"
    "inherited (world_at_turn (\<lambda>k. cacheEntryStale JCache (JString k)) JUndefined [''a'']
                     stale_world) = object_prototype"
    by (simp_all add: world_at_turn_def guarded_def matches_def cacheEntryStale_def
          has_property_def own_keys_def s dispatchEvent_def CustomEvent_def stale_world_def
          addEventListener_def new_Cache_def remover_def delete_property_def)
  have t2: "store (world_at_turn (\<lambda>k. cacheEntryStale JCache (JString k)) JUndefined [''a'']
                     shadow_world) = [(''a'', 1), (''c'', 3)]"
    "inherited (world_at_turn (\<lambda>k. cacheEntryStale JCache (JString k)) JUndefined [''a'']
                     shadow_world) = object_prototype"
    by (simp_all add: world_at_turn_def guarded_def matches_def cacheEntryStale_def
          has_property_def own_keys_def h dispatchEvent_def CustomEvent_def shadow_world_def
          addEventListener_def new_Cache_def remover_def delete_property_def)
  have a: "''a/stale'' \<in> set (trace_types (\<lambda>e. True)
         (dispatched (snd (cacheStale JCache JUndefined stale_world))))"
    using bulk_visits_in_enumeration_order [OF m d(1) k1]
    unfolding f t0 by (simp add: matches_def has_property_def own_keys_def s)
  have nb: "\<not> has_property
         (world_at_turn (\<lambda>k. cacheEntryStale JCache (JString k)) JUndefined [''a''] stale_world)
         ''b''"
    by (simp add: has_property_def t1 own_keys_def object_prototype_def)
  have b: "''b/stale'' \<notin> set (trace_types (\<lambda>e. True)
         (dispatched (snd (cacheStale JCache JUndefined stale_world))))"
    using bulk_visits_in_enumeration_order [OF m d(1) k2] nb
    unfolding f by simp
  have nt: "''toString'' \<notin> set (own_keys (store
         (world_at_turn (\<lambda>k. cacheEntryStale JCache (JString k)) JUndefined [''a'']
            shadow_world)))"
    by (simp add: t2 own_keys_def)
  have ht: "has_property
         (world_at_turn (\<lambda>k. cacheEntryStale JCache (JString k)) JUndefined [''a''] shadow_world)
         ''toString''"
    by (simp add: has_property_def t2 object_prototype_def)
  have c: "''toString/stale'' \<in> set (trace_types (\<lambda>e. True)
         (dispatched (snd (cacheStale JCache JUndefined shadow_world))))"
    using bulk_visits_in_enumeration_order [OF m d(2) k3] ht
    unfolding f by (simp add: matches_def)
  show ?thesis using m d k1 k2 k3 a nb b nt c by simp
qed

text \<open>
  C6, as stated, fails: on \<open>new Cache({ a: 1, b: 2 })\<close> with a listener of
  \<open>a/stale\<close> that removes \<open>b\<close>, \<open>cacheStale\<close> skips the key \<open>b\<close>, which was in
  the store and matched when the call began: \<open>a/stale\<close> is the only event.
\<close>

theorem snapshot_iteration_counterexample:
  "''b'' \<in> set (own_keys (store stale_world)) \<and> matches JUndefined ''b''
   \<and> cacheStale JCache JUndefined stale_world =
       (None, stale_world
          \<lparr>store := [(''a'', 1)],
           dispatched := [(CustomEvent ''a/stale'', [(''a'', 1), (''b'', 2)])]\<rparr>)"
  by (simp add: cacheStale_def stale_world_def addEventListener_def new_Cache_def own_keys_def
        matches_def cacheEntryStale_def has_property_def delete_property_def dispatchEvent_def
        CustomEvent_def remover_def object_prototype_def)

text \<open>
  C8. In a store-blind world (no listener writes the store, and no listener's veto depends
  on it), every bulk operation with a valid matcher succeeds and touches matching keys
  only: \<open>cacheDelete\<close> keeps exactly the entries whose key does not match,
  \<open>cacheStale\<close> keeps the store, \<open>cachePrune\<close> removes exactly the matching
  entries that no listener vetoes. Hence two stores with the same entries in different
  orders end with the same entries. The events are those of the matching keys and no
  others, in the order of the store's keys: one \<open>delete\<close> per matching key for
  \<open>cacheDelete\<close>, one \<open>stale\<close> per matching key for \<open>cacheStale\<close>, and for
  \<open>cachePrune\<close> one \<open>prune\<close> per matching key and one \<open>delete\<close> per matching key
  that is not vetoed.
\<close>

theorem bulk_result_independent_of_order:
  assumes "is_undefined m \<or> is_function m" and "store_blind w" and "set s1 = set s2"
  shows "fst (cacheDelete JCache m (w\<lparr>store := s1\<rparr>)) = None
       \<and> store (snd (cacheDelete JCache m (w\<lparr>store := s1\<rparr>))) =
           filter (\<lambda>p. \<not> matches m (fst p)) s1
       \<and> set (store (snd (cacheDelete JCache m (w\<lparr>store := s1\<rparr>)))) =
           set (store (snd (cacheDelete JCache m (w\<lparr>store := s2\<rparr>))))
       \<and> fst (cacheStale JCache m (w\<lparr>store := s1\<rparr>)) = None
       \<and> store (snd (cacheStale JCache m (w\<lparr>store := s1\<rparr>))) = s1
       \<and> set (store (snd (cacheStale JCache m (w\<lparr>store := s1\<rparr>)))) =
           set (store (snd (cacheStale JCache m (w\<lparr>store := s2\<rparr>))))
       \<and> fst (cachePrune JCache m (w\<lparr>store := s1\<rparr>)) = None
       \<and> store (snd (cachePrune JCache m (w\<lparr>store := s1\<rparr>))) =
           filter (\<lambda>p. \<not> (matches m (fst p) \<and> \<not> vetoes w (fst p))) s1
       \<and> set (store (snd (cachePrune JCache m (w\<lparr>store := s1\<rparr>)))) =
           set (store (snd (cachePrune JCache m (w\<lparr>store := s2\<rparr>))))
       \<and> (distinct (own_keys s1) \<longrightarrow>
            trace_types (\<lambda>e. True)
                (fired (w\<lparr>store := s1\<rparr>) (snd (cacheDelete JCache m (w\<lparr>store := s1\<rparr>)))) =
              map (\<lambda>k. k @ ''/delete'') (filter (matches m) (own_keys s1))
          \<and> trace_types (\<lambda>e. True)
                (fired (w\<lparr>store := s1\<rparr>) (snd (cacheStale JCache m (w\<lparr>store := s1\<rparr>)))) =
              map (\<lambda>k. k @ ''/stale'') (filter (matches m) (own_keys s1))
          \<and> trace_types cancelable
                (fired (w\<lparr>store := s1\<rparr>) (snd (cachePrune JCache m (w\<lparr>store := s1\<rparr>)))) =
              map (\<lambda>k. k @ ''/prune'') (filter (matches m) (own_keys s1))
          \<and> trace_types (\<lambda>e. \<not> cancelable e)
                (fired (w\<lparr>store := s1\<rparr>) (snd (cachePrune JCache m (w\<lparr>store := s1\<rparr>)))) =
              map (\<lambda>k. k @ ''/delete'')
                (filter (\<lambda>k. matches m k \<and> \<not> vetoes w k) (own_keys s1)))"
proof -
  have b: "store_blind (w\<lparr>store := s\<rparr>)" for s
    using assms(2) by (simp add: store_blind_def)
  have d: "fst (cacheDelete JCache m (w\<lparr>store := s\<rparr>)) = None
       \<and> store (snd (cacheDelete JCache m (w\<lparr>store := s\<rparr>))) =
           filter (\<lambda>p. \<not> matches m (fst p)) s" for s
    using cacheDelete_store [OF assms(1) b [of s]] by simp
  have s: "fst (cacheStale JCache m (w\<lparr>store := s\<rparr>)) = None
       \<and> store (snd (cacheStale JCache m (w\<lparr>store := s\<rparr>))) = s" for s
    using cacheStale_store [OF assms(1) b [of s]] by simp
  have p: "fst (cachePrune JCache m (w\<lparr>store := s\<rparr>)) = None
       \<and> store (snd (cachePrune JCache m (w\<lparr>store := s\<rparr>))) =
           filter (\<lambda>p. \<not> (matches m (fst p) \<and> \<not> vetoes w (fst p))) s" for s
    using cachePrune_store [OF assms(1) b [of s]] vetoes_store [OF assms(2)] by simp
  have t: "trace_types (\<lambda>e. True)
                (fired (w\<lparr>store := s1\<rparr>) (snd (cacheDelete JCache m (w\<lparr>store := s1\<rparr>)))) =
              map (\<lambda>k. k @ ''/delete'') (filter (matches m) (own_keys s1))
          \<and> trace_types (\<lambda>e. True)
                (fired (w\<lparr>store := s1\<rparr>) (snd (cacheStale JCache m (w\<lparr>store := s1\<rparr>)))) =
              map (\<lambda>k. k @ ''/stale'') (filter (matches m) (own_keys s1))
          \<and> trace_types cancelable
                (fired (w\<lparr>store := s1\<rparr>) (snd (cachePrune JCache m (w\<lparr>store := s1\<rparr>)))) =
              map (\<lambda>k. k @ ''/prune'') (filter (matches m) (own_keys s1))
          \<and> trace_types (\<lambda>e. \<not> cancelable e)
                (fired (w\<lparr>store := s1\<rparr>) (snd (cachePrune JCache m (w\<lparr>store := s1\<rparr>)))) =
              map (\<lambda>k. k @ ''/delete'')
                (filter (\<lambda>k. matches m k \<and> \<not> vetoes w k) (own_keys s1))"
    if "distinct (own_keys s1)"
  proof -
    have ds: "distinct (own_keys (store (w\<lparr>store := s1\<rparr>)))" using that by simp
    show ?thesis
      using cacheDelete_fired [OF assms(1) b [of s1] ds] cacheStale_fired [OF assms(1) b [of s1] ds]
        cachePrune_fired [OF assms(1) b [of s1] ds] vetoes_store [OF assms(2)]
      by simp
  qed
  show ?thesis using d s p t assms(3) by simp
qed

theorem bulk_result_independent_of_order_witness:
  "(is_undefined not_b \<or> is_function not_b) \<and> store_blind blind_world
   \<and> set store_abc = set store_cba \<and> distinct (own_keys store_abc)
   \<and> distinct (own_keys store_cba)
   \<and> store (snd (cacheDelete JCache not_b (blind_world\<lparr>store := store_abc\<rparr>))) = [(''b'', 2)]
   \<and> store (snd (cacheDelete JCache not_b (blind_world\<lparr>store := store_cba\<rparr>))) = [(''b'', 2)]
   \<and> store (snd (cacheStale JCache not_b (blind_world\<lparr>store := store_cba\<rparr>))) = store_cba
   \<and> store (snd (cachePrune JCache not_b (blind_world\<lparr>store := store_abc\<rparr>))) =
       [(''a'', 1), (''b'', 2)]
   \<and> store (snd (cachePrune JCache not_b (blind_world\<lparr>store := store_cba\<rparr>))) =
       [(''b'', 2), (''a'', 1)]
   \<and> trace_types (\<lambda>e. True)
        (dispatched (snd (cacheDelete JCache not_b (blind_world\<lparr>store := store_abc\<rparr>)))) =
       [''a/delete'', ''c/delete'']
   \<and> trace_types (\<lambda>e. True)
        (dispatched (snd (cacheStale JCache not_b (blind_world\<lparr>store := store_cba\<rparr>)))) =
       [''c/stale'', ''a/stale'']
   \<and> trace_types cancelable
        (dispatched (snd (cachePrune JCache not_b (blind_world\<lparr>store := store_abc\<rparr>)))) =
       [''a/prune'', ''c/prune'']
   \<and> trace_types (\<lambda>e. \<not> cancelable e)
        (dispatched (snd (cachePrune JCache not_b (blind_world\<lparr>store := store_abc\<rparr>)))) =
       [''c/delete'']"
proof -
  have m: "is_undefined not_b \<or> is_function not_b" by (simp add: not_b_def)
  have b: "store_blind blind_world"
    by (auto simp: store_blind_def blind_world_def addEventListener_def new_Cache_def
          recorder_def preventer_def split: if_splits)
  have e: "set store_abc = set store_cba" "set store_cba = set store_abc"
    by (auto simp: store_abc_def store_cba_def)
  have ds: "distinct (own_keys store_abc)" "distinct (own_keys store_cba)"
    by (simp_all add: own_keys_def store_abc_def store_cba_def)
  have v: "vetoes blind_world ''a''" "\<not> vetoes blind_world ''b''" "\<not> vetoes blind_world ''c''"
    by (simp_all add: vetoes_def prevented_def blind_world_def addEventListener_def new_Cache_def
          CancelableEvent_def preventer_def)
  have n: "\<not> matches not_b ''b''" "matches not_b ''a''" "matches not_b ''c''"
    by (simp_all add: matches_def not_b_def)
  have f: "fired (blind_world\<lparr>store := s\<rparr>) w' = dispatched w'" for s and w' :: "int world"
    by (simp add: fired_def blind_world_def addEventListener_def new_Cache_def)
  have k: "own_keys store_abc = [''a'', ''b'', ''c'']" "own_keys store_cba = [''c'', ''b'', ''a'']"
    by (simp_all add: own_keys_def store_abc_def store_cba_def)
  have r1: "store (snd (cacheDelete JCache not_b (blind_world\<lparr>store := store_abc\<rparr>))) = [(''b'', 2)]
     \<and> store (snd (cachePrune JCache not_b (blind_world\<lparr>store := store_abc\<rparr>))) =
         [(''a'', 1), (''b'', 2)]
     \<and> trace_types (\<lambda>e. True)
        (dispatched (snd (cacheDelete JCache not_b (blind_world\<lparr>store := store_abc\<rparr>)))) =
         [''a/delete'', ''c/delete'']
     \<and> trace_types cancelable
        (dispatched (snd (cachePrune JCache not_b (blind_world\<lparr>store := store_abc\<rparr>)))) =
         [''a/prune'', ''c/prune'']
     \<and> trace_types (\<lambda>e. \<not> cancelable e)
        (dispatched (snd (cachePrune JCache not_b (blind_world\<lparr>store := store_abc\<rparr>)))) =
         [''c/delete'']"
    using bulk_result_independent_of_order [OF m b e(1)] ds(1) v n
    unfolding f k by (simp add: store_abc_def)
  have r2: "store (snd (cacheDelete JCache not_b (blind_world\<lparr>store := store_cba\<rparr>))) = [(''b'', 2)]
     \<and> store (snd (cacheStale JCache not_b (blind_world\<lparr>store := store_cba\<rparr>))) = store_cba
     \<and> store (snd (cachePrune JCache not_b (blind_world\<lparr>store := store_cba\<rparr>))) =
         [(''b'', 2), (''a'', 1)]
     \<and> trace_types (\<lambda>e. True)
        (dispatched (snd (cacheStale JCache not_b (blind_world\<lparr>store := store_cba\<rparr>)))) =
         [''c/stale'', ''a/stale'']"
    using bulk_result_independent_of_order [OF m b e(2)] ds(2) v n
    unfolding f k by (simp add: store_cba_def)
  show ?thesis using m b e(1) ds r1 r2 by simp
qed

section \<open>Reset of the GraphQL client\<close>

lemma fold_delete_property:
  "fold delete_property ks s = filter (\<lambda>p. fst p \<notin> set ks) s"
proof (induction ks arbitrary: s)
  case Nil
  show ?case by simp
next
  case (Cons k ks)
  have "fold delete_property (k # ks) s = filter (\<lambda>p. fst p \<notin> set ks) (delete_property k s)"
    by (simp add: Cons.IH)
  also have "\<dots> = filter (\<lambda>p. fst p \<notin> set (k # ks)) s"
    by (simp add: delete_property_def)
  finally show ?case .
qed

lemma run_handlers_quiet:
  "\<forall>h \<in> set hs. \<forall>d s. h t d s = s \<Longrightarrow> run_handlers hs t d s = s"
  by (induction hs) simp_all

lemma map_of_filter_key: "map_of (filter (\<lambda>p. fst p = k) s) k = map_of s k"
  by (induction s) auto

lemma map_of_filter_other: "k' \<noteq> k \<Longrightarrow> map_of (filter (\<lambda>p. fst p = k) s) k' = None"
  by (induction s) auto

lemma reset_kept:
  "fold delete_property
     (if truthy e then filter (\<lambda>hash. \<not> strict_equals hash e) (own_keys s) else own_keys s) s
   = filter (\<lambda>p. truthy e \<and> strict_equals (fst p) e) s"
proof -
  have "filter (\<lambda>p. fst p \<notin> set (if truthy e then filter (\<lambda>hash. \<not> strict_equals hash e) (own_keys s)
                                    else own_keys s)) s
        = filter (\<lambda>p. truthy e \<and> strict_equals (fst p) e) s"
    by (rule filter_cong) (auto simp: own_keys_def)
  then show ?thesis by (simp only: fold_delete_property)
qed


text \<open>
  C10, as the code has it. \<open>reset(exceptCacheKey)\<close> emits exactly one event, \<open>reset\<close>
  with the argument as details, on a cache from which the deletions are already made.
  What is left at that moment is the entry under \<open>exceptCacheKey\<close> when the argument is
  truthy, and nothing when it is falsy (omitted, or the empty string): for a non-empty
  string the entry under it is unchanged and every other key is gone. When the handlers
  of \<open>reset\<close> leave the cache alone, that is the final cache.
\<close>

theorem reset_keeps_truthy_exception:
  "emitted (reset e g) =
     emitted g @ [(''reset'', e, filter (\<lambda>p. truthy e \<and> strict_equals (fst p) e) (graphql_cache g))]
   \<and> (quiet g ''reset'' \<longrightarrow>
        graphql_cache (reset e g) = filter (\<lambda>p. truthy e \<and> strict_equals (fst p) e) (graphql_cache g))
   \<and> (\<not> truthy e \<longrightarrow> filter (\<lambda>p. truthy e \<and> strict_equals (fst p) e) (graphql_cache g) = [])
   \<and> (\<forall>k. e = JString k \<and> k \<noteq> [] \<longrightarrow>
        map_of (filter (\<lambda>p. truthy e \<and> strict_equals (fst p) e) (graphql_cache g)) k = map_of (graphql_cache g) k
        \<and> (\<forall>k'. k' \<noteq> k \<longrightarrow>
              map_of (filter (\<lambda>p. truthy e \<and> strict_equals (fst p) e) (graphql_cache g)) k' = None))"
proof -
  let ?kept = "filter (\<lambda>p. truthy e \<and> strict_equals (fst p) e) (graphql_cache g)"
  have r: "reset e g = emit ''reset'' e (g\<lparr>graphql_cache := ?kept\<rparr>)"
    using reset_kept [of e "graphql_cache g"] by (simp add: reset_def Let_def)
  have a: "emitted (reset e g) = emitted g @ [(''reset'', e, ?kept)]"
    by (simp add: r emit_def)
  have b: "graphql_cache (reset e g) = ?kept" if "quiet g ''reset''"
    using that run_handlers_quiet [of "handlers g ''reset'' @ handlers g ''*''" "''reset''" e ?kept]
    by (simp add: r emit_def quiet_def)
  have c: "?kept = []" if "\<not> truthy e" using that by simp
  have d: "map_of ?kept k = map_of (graphql_cache g) k \<and> (\<forall>k'. k' \<noteq> k \<longrightarrow> map_of ?kept k' = None)"
    if "e = JString k" "k \<noteq> []" for k
  proof -
    have "?kept = filter (\<lambda>p. fst p = k) (graphql_cache g)" using that by simp
    then show ?thesis by (simp add: map_of_filter_key map_of_filter_other)
  qed
  show ?thesis
  proof (intro conjI impI allI)
    show "emitted (reset e g) = emitted g @ [(''reset'', e, ?kept)]" by (rule a)
    show "graphql_cache (reset e g) = ?kept" if "quiet g ''reset''" using that by (rule b)
    show "?kept = []" if "\<not> truthy e" using that by (rule c)
    show "map_of ?kept k = map_of (graphql_cache g) k" if "e = JString k \<and> k \<noteq> []" for k
      using d [of k] that by simp
    show "map_of ?kept k' = None" if "e = JString k \<and> k \<noteq> []" "k' \<noteq> k" for k k'
      using d [of k] that by simp
  qed
qed


theorem reset_keeps_truthy_exception_witness:
  "quiet client ''reset''
   \<and> graphql_cache (reset (JString ''a'') client) = [(''a'', 2)]
   \<and> emitted (reset (JString ''a'') client) = [(''reset'', JString ''a'', [(''a'', 2)])]
   \<and> graphql_cache (reset JUndefined client) = []
   \<and> emitted (reset JUndefined client) = [(''reset'', JUndefined, [])]"
proof -
  have q: "quiet client ''reset''" by (simp add: quiet_def client_def reader_def)
  have c: "graphql_cache client = [([], 1), (''a'', 2), (''b'', 3)]" "emitted client = []"
    by (simp_all add: client_def)
  have k: "filter (\<lambda>p. truthy (JString ''a'') \<and> strict_equals (fst p) (JString ''a''))
             (graphql_cache client) = [(''a'', 2)]"
    by (simp add: c)
  have u: "filter (\<lambda>p. truthy JUndefined \<and> strict_equals (fst p) JUndefined)
             (graphql_cache client) = []"
    by simp
  have a: "graphql_cache (reset (JString ''a'') client) = [(''a'', 2)]
           \<and> emitted (reset (JString ''a'') client) = [(''reset'', JString ''a'', [(''a'', 2)])]"
    using reset_keeps_truthy_exception [of "JString ''a''" client] q
    unfolding k c(2) by simp
  have b: "graphql_cache (reset JUndefined client) = []
           \<and> emitted (reset JUndefined client) = [(''reset'', JUndefined, [])]"
    using reset_keeps_truthy_exception [of JUndefined client] q
    unfolding u c(2) by simp
  show ?thesis using q a b by simp
qed

text \<open>
  C10, as stated, fails for the empty string: \<open>if (exceptCacheKey)\<close> reads it as no
  exception at all, and the entry under the key \<open>""\<close> is deleted with the others.
\<close>

theorem reset_empty_key_counterexample:
  "map_of (graphql_cache client) [] = Some 1
   \<and> graphql_cache (reset (JString []) client) = []
   \<and> emitted (reset (JString []) client) = [(''reset'', JString [], [])]"
  by (simp add: reset_def emit_def client_def own_keys_def delete_property_def reader_def)

section \<open>Aborted loading\<close>

lemma loading_get_register:
  "loading_get (loading_store (register k j \<sigma>)) k' =
     (if k' = k then loading_get (loading_store \<sigma>) k @ [j] else loading_get (loading_store \<sigma>) k')"
  by (simp add: register_def loading_get_def)

lemma loading_get_unregister:
  "loading_get (loading_store (unregister k j \<sigma>)) k' =
     (if k' = k then removeAll j (loading_get (loading_store \<sigma>) k)
      else loading_get (loading_store \<sigma>) k')"
  by (simp add: unregister_def loading_get_def Let_def)

lemma register_frame:
  "lcvs (register k j \<sigma>) = lcvs \<sigma>" "ended (register k j \<sigma>) = ended \<sigma>"
  "the_cache (register k j \<sigma>) = the_cache \<sigma>"
  by (simp_all add: register_def)

lemma unregister_frame:
  "lcvs (unregister k j \<sigma>) = lcvs \<sigma>" "ended (unregister k j \<sigma>) = ended \<sigma> @ [j]"
  "the_cache (unregister k j \<sigma>) = the_cache \<sigma>"
  by (simp_all add: unregister_def Let_def)

lemma aborted_pending_construct:
  "aborted_pending i k c \<sigma> \<Longrightarrow> aborted_pending i k c (LoadingCacheValue k' a \<sigma>)"
  by (auto simp: aborted_pending_def LoadingCacheValue_def register_frame loading_get_register
        nth_append)

lemma aborted_pending_abort:
  "aborted_pending i k c \<sigma> \<Longrightarrow> aborted_pending i k c (abort j \<sigma>)"
  by (cases "j = i") (auto simp: aborted_pending_def abort_def)

lemma aborted_pending_settle:
  "aborted_pending i k c \<sigma> \<Longrightarrow> aborted_pending i k c (settle j v \<sigma>)"
  by (cases "j = i")
     (auto simp: aborted_pending_def settle_def unregister_frame loading_get_unregister)

lemma aborted_pending_exec:
  "aborted_pending i k c \<sigma> \<Longrightarrow> aborted_pending i k c (exec tr \<sigma>)"
proof (induction tr arbitrary: \<sigma>)
  case Nil
  then show ?case by simp
next
  case (Cons s tr)
  have "aborted_pending i k c (do_step s \<sigma>)"
    using Cons.prems
    by (cases s) (simp_all add: aborted_pending_construct aborted_pending_abort aborted_pending_settle)
  then show ?case using Cons.IH by simp
qed

lemma settle_aborted_pending:
  assumes "aborted_pending i k c \<sigma>"
  shows "the_cache (settle i v \<sigma>) = the_cache \<sigma>"
    and "state (lcvs (settle i v \<sigma>) ! i) = ABORTED"
    and "count_list (ended (settle i v \<sigma>)) i = Suc c"
    and "i \<notin> set (loading_get (loading_store (settle i v \<sigma>)) k)"
  using assms
  by (auto simp: aborted_pending_def settle_def unregister_frame loading_get_unregister)

lemma overlapping_system_eval:
  "lcvs overlapping_system =
     [\<lparr>lcv_key = ''x'', aborted = True, state = PENDING\<rparr>,
      \<lparr>lcv_key = ''x'', aborted = False, state = PENDING\<rparr>]"
  "ended overlapping_system = []"
  "loading_get (loading_store overlapping_system) ''x'' = [0, 1]"
  "the_cache overlapping_system = new_Cache []"
  by (simp_all add: overlapping_system_def fresh_system_def LoadingCacheValue_def register_def
        abort_def loading_get_def)

text \<open>
  C1. Take a loading cache value that is aborted while it is pending and not yet
  unregistered. Whatever happens next (constructions, aborts and settlements, its own
  included), it never reaches \<open>COMMITTED\<close>, and whenever its promise settles, with any
  value, the cache stays exactly as it was: no store write and no event. Once settled it
  is \<open>ABORTED\<close>, out of the registry of its key, and it was unregistered exactly once.
\<close>

theorem aborted_load_never_commits:
  assumes "i < length (lcvs \<sigma>)" and "aborted (lcvs \<sigma> ! i)"
    and "state (lcvs \<sigma> ! i) = PENDING" and "i \<notin> set (ended \<sigma>)"
  shows "the_cache (settle i v (exec tr \<sigma>)) = the_cache (exec tr \<sigma>)
       \<and> state (lcvs (exec tr \<sigma>) ! i) \<noteq> COMMITTED
       \<and> state (lcvs (settle i v (exec tr \<sigma>)) ! i) = ABORTED
       \<and> count_list (ended (settle i v (exec tr \<sigma>))) i = 1
       \<and> i \<notin> set (loading_get (loading_store (settle i v (exec tr \<sigma>))) (lcv_key (lcvs \<sigma> ! i)))"
proof -
  have "count_list (ended \<sigma>) i = 0" using assms(4) by (simp add: count_list_0_iff)
  then have "aborted_pending i (lcv_key (lcvs \<sigma> ! i)) 0 \<sigma>"
    using assms(1-3) by (simp add: aborted_pending_def)
  then have inv: "aborted_pending i (lcv_key (lcvs \<sigma> ! i)) 0 (exec tr \<sigma>)"
    by (rule aborted_pending_exec)
  have "state (lcvs (exec tr \<sigma>) ! i) \<noteq> COMMITTED"
    using inv by (auto simp: aborted_pending_def)
  then show ?thesis using settle_aborted_pending [OF inv, of v] by simp
qed

theorem aborted_load_never_commits_witness:
  "0 < length (lcvs overlapping_system) \<and> aborted (lcvs overlapping_system ! 0)
   \<and> state (lcvs overlapping_system ! 0) = PENDING \<and> 0 \<notin> set (ended overlapping_system)
   \<and> get (the_cache (settle 0 7 (exec [Settle 1 42] overlapping_system))) ''x'' = Some 42
   \<and> the_cache (settle 0 7 (exec [Settle 1 42] overlapping_system)) =
       the_cache (exec [Settle 1 42] overlapping_system)
   \<and> count_list (ended (settle 0 7 (exec [Settle 1 42] overlapping_system))) 0 = 1
   \<and> loading_get (loading_store (settle 0 7 (exec [Settle 1 42] overlapping_system))) ''x'' = []"
proof -
  have h: "0 < length (lcvs overlapping_system)" "aborted (lcvs overlapping_system ! 0)"
    "state (lcvs overlapping_system ! 0) = PENDING" "0 \<notin> set (ended overlapping_system)"
    by (simp_all add: overlapping_system_eval)
  have s1: "get (the_cache (exec [Settle 1 42] overlapping_system)) ''x'' = Some 42"
    by (simp add: settle_def overlapping_system_eval unregister_frame cacheEntrySet_def
          get_def new_Cache_def dispatchEvent_def DetailEvent_def)
  have g1: "loading_get (loading_store (exec [Settle 1 42] overlapping_system)) ''x'' = [0]"
    by (simp add: settle_def overlapping_system_eval loading_get_unregister)
  have l1: "lcvs (exec [Settle 1 42] overlapping_system) =
     [\<lparr>lcv_key = ''x'', aborted = True, state = PENDING\<rparr>,
      \<lparr>lcv_key = ''x'', aborted = False, state = COMMITTED\<rparr>]"
    by (simp add: settle_def overlapping_system_eval unregister_frame)
  have g2: "loading_get (loading_store (settle 0 7 (exec [Settle 1 42] overlapping_system))) ''x'' = []"
    using g1 l1 by (simp add: settle_def [of 0] loading_get_unregister)
  show ?thesis
    using h s1 g2 aborted_load_never_commits [OF h, of 7 "[Settle 1 42]"] by simp
qed

end
